theory Spec2Isabelle
  imports Complex_Main "HOL-Library.Word"
begin

section \<open>Byte streams, exceptions and the stream monad\<close>

text \<open>
  The codec of \<^verbatim>\<open>pynbs.py\<close> works on a binary stream object held in
  \<^verbatim>\<open>self.buffer\<close>. A \<^verbatim>\<open>Parser\<close> reads from it, a \<^verbatim>\<open>Writer\<close> appends to it.
  The stream is a list of bytes: for the parser the bytes not yet read, for the writer
  the bytes written so far. Every method of the two classes is a function from the
  stream to a result and the stream afterwards; a raised exception is the result
  \<open>Inl e\<close>, and the stream position reached when it was raised is kept.
\<close>

type_synonym byte = "8 word"

datatype error =
    StructError
  | DeprecationWarning
  | UnicodeDecodeError
  | UnicodeEncodeError
  | ValueError

type_synonym 'a io = "byte list \<Rightarrow> (error + 'a) \<times> byte list"

definition io_return :: "'a \<Rightarrow> 'a io" where
  "io_return x = (\<lambda>buf. (Inr x, buf))"

definition io_lift :: "error + 'a \<Rightarrow> 'a io" where
  "io_lift r = (\<lambda>buf. (r, buf))"

definition io_bind :: "'a io \<Rightarrow> ('a \<Rightarrow> 'b io) \<Rightarrow> 'b io" where
  "io_bind m f = (\<lambda>buf. case m buf of
                     (Inl e, buf') \<Rightarrow> (Inl e, buf')
                   | (Inr x, buf') \<Rightarrow> f x buf')"

text \<open>
  \<^verbatim>\<open>buffer.read(n)\<close> of a binary file opened with \<^verbatim>\<open>open(filename, 'rb')\<close>, as the
  module's \<^verbatim>\<open>read\<close> does: at most \<open>n\<close> bytes, fewer at the end of the file, everything
  that is left for \<open>n = -1\<close>, and \<^verbatim>\<open>ValueError\<close> for \<open>n < -1\<close>.
  \<^verbatim>\<open>buffer.write(bs)\<close> appends.
\<close>

definition buffer_read :: "int \<Rightarrow> byte list io" where
  "buffer_read n = (\<lambda>buf.
     if n < - 1 then (Inl ValueError, buf)
     else if n = - 1 then (Inr buf, [])
     else (Inr (take (nat n) buf), drop (nat n) buf))"

definition buffer_write :: "byte list \<Rightarrow> unit io" where
  "buffer_write bs = (\<lambda>out. (Inr (), out @ bs))"

section \<open>The three \<^verbatim>\<open>struct\<close> formats\<close>

text \<open>
  \<^verbatim>\<open>BYTE = Struct('<b')\<close>, \<^verbatim>\<open>SHORT = Struct('<h')\<close>, \<^verbatim>\<open>INT = Struct('<i')\<close>: signed
  little-endian integers of 1, 2 and 4 bytes. \<^verbatim>\<open>pack\<close> raises \<^verbatim>\<open>struct.error\<close> for a
  value outside the format's range, \<^verbatim>\<open>unpack\<close> for a buffer that is not of the format's
  size. (The third format is called \<open>INT_fmt\<close> here.)
\<close>

datatype fmt = BYTE | SHORT | INT_fmt

fun fmt_size :: "fmt \<Rightarrow> nat" where
  "fmt_size BYTE = 1"
| "fmt_size SHORT = 2"
| "fmt_size INT_fmt = 4"

fun le_bytes :: "nat \<Rightarrow> int \<Rightarrow> byte list" where
  "le_bytes 0 v = []"
| "le_bytes (Suc n) v = word_of_int v # le_bytes n (v div 256)"

fun le_uint :: "byte list \<Rightarrow> int" where
  "le_uint [] = 0"
| "le_uint (b # bs) = uint b + 256 * le_uint bs"

definition pack :: "fmt \<Rightarrow> int \<Rightarrow> error + byte list" where
  "pack f v =
     (if - (2 ^ (8 * fmt_size f - 1)) \<le> v \<and> v < 2 ^ (8 * fmt_size f - 1)
      then Inr (le_bytes (fmt_size f) v)
      else Inl StructError)"

definition unpack :: "fmt \<Rightarrow> byte list \<Rightarrow> error + int" where
  "unpack f bs =
     (if length bs \<noteq> fmt_size f then Inl StructError
      else Inr (if 2 ^ (8 * fmt_size f - 1) \<le> le_uint bs
                then le_uint bs - 2 ^ (8 * fmt_size f)
                else le_uint bs))"

section \<open>Text: \<^verbatim>\<open>str.encode()\<close> and \<^verbatim>\<open>bytes.decode()\<close>\<close>

text \<open>
  A Python 3 \<^verbatim>\<open>str\<close> is a sequence of Unicode code points (each at most \<open>0x10FFFF\<close>),
  and \<^verbatim>\<open>len\<close> counts code points. \<^verbatim>\<open>encode()\<close> and \<^verbatim>\<open>decode()\<close> without arguments
  are strict UTF-8: a surrogate code point cannot be encoded, and only well-formed
  UTF-8 (shortest form, no surrogates, nothing above \<open>0x10FFFF\<close>) can be decoded.
\<close>

type_synonym str = "nat list"

definition utf8_encode_char :: "nat \<Rightarrow> error + byte list" where
  "utf8_encode_char c =
     (if c < 0x80 then Inr [of_nat c]
      else if c < 0x800 then Inr [of_nat (0xC0 + c div 64), of_nat (0x80 + c mod 64)]
      else if 0xD800 \<le> c \<and> c \<le> 0xDFFF then Inl UnicodeEncodeError
      else if c < 0x10000 then
        Inr [of_nat (0xE0 + c div 4096), of_nat (0x80 + c div 64 mod 64),
             of_nat (0x80 + c mod 64)]
      else if c \<le> 0x10FFFF then
        Inr [of_nat (0xF0 + c div 262144), of_nat (0x80 + c div 4096 mod 64),
             of_nat (0x80 + c div 64 mod 64), of_nat (0x80 + c mod 64)]
      else Inl UnicodeEncodeError)"

fun utf8_encode :: "str \<Rightarrow> error + byte list" where
  "utf8_encode [] = Inr []"
| "utf8_encode (c # cs) =
     (case utf8_encode_char c of
        Inl e \<Rightarrow> Inl e
      | Inr bs \<Rightarrow> (case utf8_encode cs of Inl e \<Rightarrow> Inl e | Inr rest \<Rightarrow> Inr (bs @ rest)))"

definition is_cont :: "byte \<Rightarrow> bool" where
  "is_cont b = (0x80 \<le> unat b \<and> unat b < 0xC0)"

definition cons_char :: "nat \<Rightarrow> error + str \<Rightarrow> error + str" where
  "cons_char c r = (case r of Inl e \<Rightarrow> Inl e | Inr cs \<Rightarrow> Inr (c # cs))"

fun utf8_decode :: "byte list \<Rightarrow> error + str" where
  "utf8_decode [] = Inr []"
| "utf8_decode (b0 # bs) =
     (if unat b0 < 0x80 then cons_char (unat b0) (utf8_decode bs)
      else if unat b0 < 0xC0 then Inl UnicodeDecodeError
      else if unat b0 < 0xE0 then
        (case bs of
           b1 # r \<Rightarrow>
             (let c = (unat b0 - 0xC0) * 64 + (unat b1 - 0x80)
              in if is_cont b1 \<and> 0x80 \<le> c then cons_char c (utf8_decode r)
                 else Inl UnicodeDecodeError)
         | _ \<Rightarrow> Inl UnicodeDecodeError)
      else if unat b0 < 0xF0 then
        (case bs of
           b1 # b2 # r \<Rightarrow>
             (let c = (unat b0 - 0xE0) * 4096 + (unat b1 - 0x80) * 64 + (unat b2 - 0x80)
              in if is_cont b1 \<and> is_cont b2 \<and> 0x800 \<le> c \<and> \<not> (0xD800 \<le> c \<and> c \<le> 0xDFFF)
                 then cons_char c (utf8_decode r)
                 else Inl UnicodeDecodeError)
         | _ \<Rightarrow> Inl UnicodeDecodeError)
      else if unat b0 < 0xF8 then
        (case bs of
           b1 # b2 # b3 # r \<Rightarrow>
             (let c = (unat b0 - 0xF0) * 262144 + (unat b1 - 0x80) * 4096
                      + (unat b2 - 0x80) * 64 + (unat b3 - 0x80)
              in if is_cont b1 \<and> is_cont b2 \<and> is_cont b3 \<and> 0x10000 \<le> c \<and> c \<le> 0x10FFFF
                 then cons_char c (utf8_decode r)
                 else Inl UnicodeDecodeError)
         | _ \<Rightarrow> Inl UnicodeDecodeError)
      else Inl UnicodeDecodeError)"

section \<open>The data model\<close>

text \<open>
  The named tuples \<^verbatim>\<open>Note\<close>, \<^verbatim>\<open>Layer\<close> and \<^verbatim>\<open>Instrument\<close> are datatypes with
  selectors (the fields \<^verbatim>\<open>id\<close>, \<^verbatim>\<open>name\<close> and \<^verbatim>\<open>file\<close> carry the tuple's name as a
  prefix), the classes \<^verbatim>\<open>Header\<close> and \<^verbatim>\<open>File\<close> are records (the attribute
  \<^verbatim>\<open>notes\<close> of a \<^verbatim>\<open>File\<close> is the field \<open>file_notes\<close>). Python integers are
  \<open>int\<close>. The header's \<^verbatim>\<open>tempo\<close> is a Python float: its type is the parameter \<open>'f\<close>,
  and the two float computations of the codec are parameters of the functions that
  perform them:
  \<^item> \<open>centi :: int \<Rightarrow> 'f\<close> stands for \<^verbatim>\<open>x / 100.0\<close> in \<^verbatim>\<open>parse_header\<close>;
  \<^item> \<open>cents :: 'f \<Rightarrow> error + int\<close> stands for \<^verbatim>\<open>int(tempo * 100)\<close> in
    \<^verbatim>\<open>write_header\<close> (which raises for an infinity or a NaN).
\<close>

datatype Note = Note (tick: int) (layer: int) (instrument: int) (key: int)

datatype Layer = Layer (layer_id: int) (layer_name: str) (volume: int) (panning: int)

datatype Instrument =
  Instrument (instrument_id: int) (instrument_name: str) (instrument_file: str)
             (pitch: int) (press_key: bool)

record 'f Header =
  version :: int
  default_instruments :: int
  song_length :: int
  song_layers :: int
  song_name :: str
  song_author :: str
  original_author :: str
  description :: str
  tempo :: 'f
  auto_save :: bool
  auto_save_duration :: int
  time_signature :: int
  minutes_spent :: int
  left_clicks :: int
  right_clicks :: int
  blocks_added :: int
  blocks_removed :: int
  song_origin :: str

record 'f File =
  header :: "'f Header"
  file_notes :: "Note list"
  layers :: "Layer list"
  instruments :: "Instrument list"

section \<open>\<^verbatim>\<open>File\<close>: header update and chord grouping\<close>

definition update_header :: "'f File \<Rightarrow> 'f File" where
  "update_header f =
     (let f1 = (if file_notes f \<noteq> []
                then f\<lparr>header := (header f)\<lparr>song_length := tick (last (file_notes f))\<rparr>\<rparr>
                else f)
      in f1\<lparr>header := (header f1)\<lparr>song_layers := int (length (layers f1))\<rparr>\<rparr>)"

text \<open>
  \<^verbatim>\<open>File.__iter__\<close>: the generator's loop over the notes sorted by tick (\<^verbatim>\<open>sorted\<close>
  is stable, as \<open>sort_key\<close> is), with the loop variables \<open>current_tick\<close> and \<open>chord\<close>.
  The list of the pairs it yields is \<open>File_iter\<close>.
\<close>

fun iter_loop :: "int \<Rightarrow> Note list \<Rightarrow> Note list \<Rightarrow> (int \<times> Note list) list" where
  "iter_loop current_tick chord [] = [(current_tick, chord)]"
| "iter_loop current_tick chord (note # rest) =
     (if tick note = current_tick then iter_loop current_tick (chord @ [note]) rest
      else (current_tick, sort_key layer chord) # iter_loop (tick note) [note] rest)"

definition File_iter :: "'f File \<Rightarrow> (int \<times> Note list) list" where
  "File_iter f =
     (if file_notes f = [] then []
      else iter_loop (tick (hd (file_notes f))) [] (sort_key tick (file_notes f)))"

section \<open>\<^verbatim>\<open>Parser\<close>\<close>

definition read_numeric :: "fmt \<Rightarrow> int io" where
  "read_numeric f = io_bind (buffer_read (int (fmt_size f))) (\<lambda>bs. io_lift (unpack f bs))"

definition read_string :: "str io" where
  "read_string =
     io_bind (read_numeric INT_fmt) (\<lambda>len.
     io_bind (buffer_read len) (\<lambda>bs.
     io_lift (utf8_decode bs)))"

text \<open>
  \<^verbatim>\<open>Parser.jump\<close> is a generator: each value is produced when the consumer asks for
  it, so what the consumer reads from the buffer in between lies between two jumps in
  the stream. \<open>jump_from value\<close> is the generator consumed by itself from the
  accumulator \<open>value\<close> (the list of the values it yields), and \<open>jump\<close> starts it at
  \<open>-1\<close> as the source does.
\<close>

function jump_from :: "int \<Rightarrow> int list io" where
  "jump_from value buf =
     (case read_numeric SHORT buf of
        (Inl e, buf1) \<Rightarrow> (Inl e, buf1)
      | (Inr jmp, buf1) \<Rightarrow>
          if jmp = 0 then (Inr [], buf1)
          else (case jump_from (value + jmp) buf1 of
                  (Inl e, buf2) \<Rightarrow> (Inl e, buf2)
                | (Inr vs, buf2) \<Rightarrow> (Inr ((value + jmp) # vs), buf2)))"
  by pat_completeness auto

lemma read_numeric_Inr:
  "read_numeric f buf = (Inr v, buf') \<Longrightarrow>
     length buf' < length buf \<and> buf' = drop (fmt_size f) buf \<and> fmt_size f \<le> length buf"
  by (cases f)
     (auto simp: read_numeric_def io_bind_def buffer_read_def io_lift_def unpack_def
           split: if_splits)

termination jump_from
  apply (relation "measure (\<lambda>(v, buf). length buf)")
   apply simp
  apply (auto dest!: read_numeric_Inr[OF sym])
  done

declare jump_from.simps [simp del]

definition jump :: "int list io" where
  "jump = jump_from (- 1)"

definition parse_header :: "(int \<Rightarrow> 'f) \<Rightarrow> 'f Header io" where
  "parse_header centi =
     io_bind (read_numeric SHORT) (\<lambda>marker.
     if marker \<noteq> 0 then io_lift (Inl DeprecationWarning)
     else
     io_bind (read_numeric BYTE) (\<lambda>version'.
     io_bind (read_numeric BYTE) (\<lambda>default_instruments'.
     io_bind (read_numeric SHORT) (\<lambda>song_length'.
     io_bind (read_numeric SHORT) (\<lambda>song_layers'.
     io_bind read_string (\<lambda>song_name'.
     io_bind read_string (\<lambda>song_author'.
     io_bind read_string (\<lambda>original_author'.
     io_bind read_string (\<lambda>description'.
     io_bind (read_numeric SHORT) (\<lambda>tempo'.
     io_bind (read_numeric BYTE) (\<lambda>auto_save'.
     io_bind (read_numeric BYTE) (\<lambda>auto_save_duration'.
     io_bind (read_numeric BYTE) (\<lambda>time_signature'.
     io_bind (read_numeric INT_fmt) (\<lambda>minutes_spent'.
     io_bind (read_numeric INT_fmt) (\<lambda>left_clicks'.
     io_bind (read_numeric INT_fmt) (\<lambda>right_clicks'.
     io_bind (read_numeric INT_fmt) (\<lambda>blocks_added'.
     io_bind (read_numeric INT_fmt) (\<lambda>blocks_removed'.
     io_bind read_string (\<lambda>song_origin'.
     io_return
       \<lparr>version = version',
        default_instruments = default_instruments',
        song_length = song_length',
        song_layers = song_layers',
        song_name = song_name',
        song_author = song_author',
        original_author = original_author',
        description = description',
        tempo = centi tempo',
        auto_save = (auto_save' = 1),
        auto_save_duration = auto_save_duration',
        time_signature = time_signature',
        minutes_spent = minutes_spent',
        left_clicks = left_clicks',
        right_clicks = right_clicks',
        blocks_added = blocks_added',
        blocks_removed = blocks_removed',
        song_origin = song_origin'\<rparr>)))))))))))))))))))"

text \<open>
  \<^verbatim>\<open>Parser.parse_notes\<close>: two nested \<^verbatim>\<open>for\<close> loops, each over a fresh \<^verbatim>\<open>jump()\<close>
  generator on the one buffer. \<open>parse_notes_inner\<close> is the inner loop (the layers of
  one tick, its generator's accumulator as \<open>value\<close>), \<open>parse_notes_outer\<close> the outer
  one; the reads of the loop bodies happen between two reads of the generators, as they
  do in the source.
\<close>

function parse_notes_inner :: "int \<Rightarrow> int \<Rightarrow> Note list io" where
  "parse_notes_inner current_tick value buf =
     (case read_numeric SHORT buf of
        (Inl e, buf1) \<Rightarrow> (Inl e, buf1)
      | (Inr jmp, buf1) \<Rightarrow>
          if jmp = 0 then (Inr [], buf1)
          else (case read_numeric BYTE buf1 of
                  (Inl e, buf2) \<Rightarrow> (Inl e, buf2)
                | (Inr instrument', buf2) \<Rightarrow>
                    (case read_numeric BYTE buf2 of
                       (Inl e, buf3) \<Rightarrow> (Inl e, buf3)
                     | (Inr key', buf3) \<Rightarrow>
                         (case parse_notes_inner current_tick (value + jmp) buf3 of
                            (Inl e, buf4) \<Rightarrow> (Inl e, buf4)
                          | (Inr ns, buf4) \<Rightarrow>
                              (Inr (Note current_tick (value + jmp) instrument' key' # ns),
                               buf4)))))"
  by pat_completeness auto

termination parse_notes_inner
  apply (relation "measure (\<lambda>(t, v, buf). length buf)")
   apply simp
  apply (auto dest!: read_numeric_Inr[OF sym])
  done

declare parse_notes_inner.simps [simp del]

lemma read_numeric_length: "length (snd (read_numeric f buf)) \<le> length buf"
  by (auto simp: read_numeric_def io_bind_def buffer_read_def io_lift_def)

lemma read_numeric_cases:
  obtains (err) e b where "read_numeric f buf = (Inl e, b)" "length b \<le> length buf"
        | (ok) v b where "read_numeric f buf = (Inr v, b)" "length b < length buf"
proof (cases "read_numeric f buf")
  case (Pair r b)
  show ?thesis
  proof (cases r)
    case (Inl e)
    with Pair read_numeric_length[of f buf] show ?thesis by (auto intro: err)
  next
    case (Inr v)
    with Pair read_numeric_Inr[of f buf v b] show ?thesis by (auto intro: ok)
  qed
qed

lemma parse_notes_inner_length:
  "length (snd (parse_notes_inner t v buf)) \<le> length buf"
proof (induction t v buf rule: parse_notes_inner.induct)
  case (1 t v buf)
  note simps = parse_notes_inner.simps[of t v buf]
  show ?case
  proof (cases SHORT buf rule: read_numeric_cases)
    case (err e b)
    then show ?thesis by (simp add: simps)
  next
    case (ok j b1)
    note s1 = this
    show ?thesis
    proof (cases "j = 0")
      case True
      with s1 show ?thesis by (simp add: simps)
    next
      case False
      show ?thesis
      proof (cases BYTE b1 rule: read_numeric_cases)
        case (err e b)
        with s1 False show ?thesis by (simp add: simps)
      next
        case (ok i b2)
        note s2 = this
        show ?thesis
        proof (cases BYTE b2 rule: read_numeric_cases)
          case (err e b)
          with s1 s2 False show ?thesis by (simp add: simps)
        next
          case (ok k b3)
          have "length (snd (parse_notes_inner t (v + j) b3)) \<le> length b3"
            using "1.IH" s1 s2 ok False by simp
          with s1 s2 ok False show ?thesis
            by (auto simp add: simps split: prod.splits sum.splits)
        qed
      qed
    qed
  qed
qed

function parse_notes_outer :: "int \<Rightarrow> Note list io" where
  "parse_notes_outer value buf =
     (case read_numeric SHORT buf of
        (Inl e, buf1) \<Rightarrow> (Inl e, buf1)
      | (Inr jmp, buf1) \<Rightarrow>
          if jmp = 0 then (Inr [], buf1)
          else (case parse_notes_inner (value + jmp) (- 1) buf1 of
                  (Inl e, buf2) \<Rightarrow> (Inl e, buf2)
                | (Inr chord, buf2) \<Rightarrow>
                    (case parse_notes_outer (value + jmp) buf2 of
                       (Inl e, buf3) \<Rightarrow> (Inl e, buf3)
                     | (Inr ns, buf3) \<Rightarrow> (Inr (chord @ ns), buf3))))"
  by pat_completeness auto

termination parse_notes_outer
proof (relation "measure (\<lambda>(v, buf). length buf)")
  show "wf (measure (\<lambda>(v, buf). length buf))" by simp
next
  fix "value" :: int and buf x jmp buf1 y chord buf2
  assume a: "(x, buf1) = read_numeric SHORT buf" "x = Inr jmp"
    and b: "(y, buf2) = parse_notes_inner (value + jmp) (- 1) buf1"
  from a have "read_numeric SHORT buf = (Inr jmp, buf1)" by simp
  then have "length buf1 < length buf"
    using read_numeric_Inr by blast
  moreover from b have "snd (parse_notes_inner (value + jmp) (- 1) buf1) = buf2"
    by (metis snd_conv)
  then have "length buf2 \<le> length buf1"
    using parse_notes_inner_length[of "value + jmp" "- 1" buf1] by simp
  ultimately show "((value + jmp, buf2), (value, buf)) \<in> measure (\<lambda>(v, buf). length buf)"
    by simp
qed

declare parse_notes_outer.simps [simp del]

definition parse_notes :: "Note list io" where
  "parse_notes = parse_notes_outer (- 1)"

fun parse_layers_loop :: "int \<Rightarrow> nat \<Rightarrow> Layer list io" where
  "parse_layers_loop i 0 = io_return []"
| "parse_layers_loop i (Suc n) =
     io_bind read_string (\<lambda>name.
     io_bind (read_numeric BYTE) (\<lambda>volume'.
     io_bind (read_numeric BYTE) (\<lambda>panning'.
     io_bind (parse_layers_loop (i + 1) n) (\<lambda>rest.
     io_return (Layer i name volume' panning' # rest)))))"

text \<open>\<^verbatim>\<open>range(layers_count)\<close> is empty for a negative count.\<close>

definition parse_layers :: "int \<Rightarrow> Layer list io" where
  "parse_layers layers_count = parse_layers_loop 0 (nat layers_count)"

fun parse_instruments_loop :: "int \<Rightarrow> nat \<Rightarrow> Instrument list io" where
  "parse_instruments_loop i 0 = io_return []"
| "parse_instruments_loop i (Suc n) =
     io_bind read_string (\<lambda>name.
     io_bind read_string (\<lambda>file.
     io_bind (read_numeric BYTE) (\<lambda>pitch'.
     io_bind (read_numeric BYTE) (\<lambda>press_key'.
     io_bind (parse_instruments_loop (i + 1) n) (\<lambda>rest.
     io_return (Instrument i name file pitch' (press_key' = 1) # rest))))))"

definition parse_instruments :: "Instrument list io" where
  "parse_instruments =
     io_bind (read_numeric BYTE) (\<lambda>count. parse_instruments_loop 0 (nat count))"

definition read_file :: "(int \<Rightarrow> 'f) \<Rightarrow> 'f File io" where
  "read_file centi =
     io_bind (parse_header centi) (\<lambda>header'.
     io_bind parse_notes (\<lambda>notes'.
     io_bind (parse_layers (song_layers header')) (\<lambda>layers'.
     io_bind parse_instruments (\<lambda>instruments'.
     io_return \<lparr>header = header', file_notes = notes', layers = layers',
                instruments = instruments'\<rparr>))))"

section \<open>\<^verbatim>\<open>Writer\<close>\<close>

definition encode_numeric :: "fmt \<Rightarrow> int \<Rightarrow> unit io" where
  "encode_numeric f v = io_bind (io_lift (pack f v)) buffer_write"

definition encode_string :: "str \<Rightarrow> unit io" where
  "encode_string s =
     io_bind (encode_numeric INT_fmt (int (length s))) (\<lambda>_.
     io_bind (io_lift (utf8_encode s)) buffer_write)"

definition write_header :: "('f \<Rightarrow> error + int) \<Rightarrow> 'f File \<Rightarrow> unit io" where
  "write_header cents nbs_file =
     (let h = header nbs_file in
      io_bind (encode_numeric SHORT 0) (\<lambda>_.
      io_bind (encode_numeric BYTE (version h)) (\<lambda>_.
      io_bind (encode_numeric BYTE (default_instruments h)) (\<lambda>_.
      io_bind (encode_numeric SHORT (song_length h)) (\<lambda>_.
      io_bind (encode_numeric SHORT (song_layers h)) (\<lambda>_.
      io_bind (encode_string (song_name h)) (\<lambda>_.
      io_bind (encode_string (song_author h)) (\<lambda>_.
      io_bind (encode_string (original_author h)) (\<lambda>_.
      io_bind (encode_string (description h)) (\<lambda>_.
      io_bind (io_lift (cents (tempo h))) (\<lambda>tempo'.
      io_bind (encode_numeric SHORT tempo') (\<lambda>_.
      io_bind (encode_numeric BYTE (if auto_save h then 1 else 0)) (\<lambda>_.
      io_bind (encode_numeric BYTE (auto_save_duration h)) (\<lambda>_.
      io_bind (encode_numeric BYTE (time_signature h)) (\<lambda>_.
      io_bind (encode_numeric INT_fmt (minutes_spent h)) (\<lambda>_.
      io_bind (encode_numeric INT_fmt (left_clicks h)) (\<lambda>_.
      io_bind (encode_numeric INT_fmt (right_clicks h)) (\<lambda>_.
      io_bind (encode_numeric INT_fmt (blocks_added h)) (\<lambda>_.
      io_bind (encode_numeric INT_fmt (blocks_removed h)) (\<lambda>_.
      encode_string (song_origin h)))))))))))))))))))))"

fun write_chord :: "int \<Rightarrow> Note list \<Rightarrow> unit io" where
  "write_chord current_layer [] = io_return ()"
| "write_chord current_layer (note # rest) =
     io_bind (encode_numeric SHORT (layer note - current_layer)) (\<lambda>_.
     io_bind (encode_numeric BYTE (instrument note)) (\<lambda>_.
     io_bind (encode_numeric BYTE (key note)) (\<lambda>_.
     write_chord (layer note) rest)))"

fun write_chords :: "int \<Rightarrow> (int \<times> Note list) list \<Rightarrow> unit io" where
  "write_chords current_tick [] = io_return ()"
| "write_chords current_tick ((tick', chord) # rest) =
     io_bind (encode_numeric SHORT (tick' - current_tick)) (\<lambda>_.
     io_bind (write_chord (- 1) chord) (\<lambda>_.
     io_bind (encode_numeric SHORT 0) (\<lambda>_.
     write_chords tick' rest)))"

definition write_notes :: "'f File \<Rightarrow> unit io" where
  "write_notes nbs_file =
     io_bind (write_chords (- 1) (File_iter nbs_file)) (\<lambda>_. encode_numeric SHORT 0)"

fun write_layers_loop :: "Layer list \<Rightarrow> unit io" where
  "write_layers_loop [] = io_return ()"
| "write_layers_loop (l # rest) =
     io_bind (encode_string (layer_name l)) (\<lambda>_.
     io_bind (encode_numeric BYTE (volume l)) (\<lambda>_.
     io_bind (encode_numeric BYTE (panning l)) (\<lambda>_.
     write_layers_loop rest)))"

definition write_layers :: "'f File \<Rightarrow> unit io" where
  "write_layers nbs_file = write_layers_loop (layers nbs_file)"

fun write_instruments_loop :: "Instrument list \<Rightarrow> unit io" where
  "write_instruments_loop [] = io_return ()"
| "write_instruments_loop (i # rest) =
     io_bind (encode_string (instrument_name i)) (\<lambda>_.
     io_bind (encode_string (instrument_file i)) (\<lambda>_.
     io_bind (encode_numeric BYTE (pitch i)) (\<lambda>_.
     io_bind (encode_numeric BYTE (if press_key i then 1 else 0)) (\<lambda>_.
     write_instruments_loop rest))))"

definition write_instruments :: "'f File \<Rightarrow> unit io" where
  "write_instruments nbs_file =
     io_bind (encode_numeric BYTE (int (length (instruments nbs_file)))) (\<lambda>_.
     write_instruments_loop (instruments nbs_file))"

definition encode_file :: "('f \<Rightarrow> error + int) \<Rightarrow> 'f File \<Rightarrow> unit io" where
  "encode_file cents nbs_file =
     io_bind (write_header cents nbs_file) (\<lambda>_.
     io_bind (write_notes nbs_file) (\<lambda>_.
     io_bind (write_layers nbs_file) (\<lambda>_.
     write_instruments nbs_file)))"

text \<open>
  \<^verbatim>\<open>File.save\<close> updates the header and encodes the file into a fresh stream; its
  result here is the outcome of the encoding and the bytes written.
\<close>

definition save :: "('f \<Rightarrow> error + int) \<Rightarrow> 'f File \<Rightarrow> (error + unit) \<times> byte list" where
  "save cents f = encode_file cents (update_header f) []"

section \<open>Constructing documents\<close>

text \<open>
  \<^verbatim>\<open>Header()\<close> with its defaults (the default tempo, the float \<^verbatim>\<open>10.0\<close>, is the
  parameter \<open>ten\<close>) and \<^verbatim>\<open>new_file()\<close>.
\<close>

definition Header_init :: "'f \<Rightarrow> 'f Header" where
  "Header_init ten =
     \<lparr>version = 3, default_instruments = 16, song_length = 0, song_layers = 0,
      song_name = [], song_author = [], original_author = [], description = [],
      tempo = ten, auto_save = False, auto_save_duration = 10, time_signature = 4,
      minutes_spent = 0, left_clicks = 0, right_clicks = 0, blocks_added = 0,
      blocks_removed = 0, song_origin = []\<rparr>"

definition new_file :: "'f \<Rightarrow> 'f File" where
  "new_file ten =
     \<lparr>header = Header_init ten, file_notes = [], layers = [Layer 0 [] 100 100],
      instruments = []\<rparr>"

text \<open>
  An instance of the two float computations, for evaluating the codec on examples:
  exact rational arithmetic, \<^verbatim>\<open>int\<close> truncating towards zero. It agrees with the
  floats at the values of the examples below (\<^verbatim>\<open>10.0 * 100\<close> is exactly \<^verbatim>\<open>1000.0\<close>
  and \<^verbatim>\<open>1000 / 100.0\<close> exactly \<^verbatim>\<open>10.0\<close>); the general theorems hold for every
  instance.
\<close>

definition centi_exact :: "int \<Rightarrow> rat" where
  "centi_exact x = of_int x / 100"

definition cents_exact :: "rat \<Rightarrow> error + int" where
  "cents_exact t = Inr (if 0 \<le> t then \<lfloor>t * 100\<rfloor> else \<lceil>t * 100\<rceil>)"

section \<open>Functions used in the statements\<close>

text \<open>
  The running sums of a list of jumps from a start value: what the accumulator of
  \<^verbatim>\<open>jump\<close> holds after each jump.
\<close>

fun accumulate :: "int \<Rightarrow> int list \<Rightarrow> int list" where
  "accumulate v [] = []"
| "accumulate v (j # js) = (v + j) # accumulate (v + j) js"

text \<open>
  The notes the format can hold (ticks and layers from 0 to 32766, so that every jump
  fits a signed 16-bit integer; instrument and key a signed byte) and the order of the
  note grid: by tick, then by layer.
\<close>

definition note_ok :: "Note \<Rightarrow> bool" where
  "note_ok n \<longleftrightarrow>
     0 \<le> tick n \<and> tick n \<le> 32766 \<and> 0 \<le> layer n \<and> layer n \<le> 32766 \<and>
     - 128 \<le> instrument n \<and> instrument n \<le> 127 \<and> - 128 \<le> key n \<and> key n \<le> 127"

definition note_before :: "Note \<Rightarrow> Note \<Rightarrow> bool" where
  "note_before a b \<longleftrightarrow> tick a < tick b \<or> (tick a = tick b \<and> layer a < layer b)"

text \<open>
  The bytes of a chord and of a list of chords, as \<^verbatim>\<open>write_notes\<close> lays them out,
  and the chord lists with strictly ascending ticks whose chords are strictly ascending
  in layer.
\<close>

fun chord_bytes :: "int \<Rightarrow> Note list \<Rightarrow> byte list" where
  "chord_bytes current_layer [] = []"
| "chord_bytes current_layer (n # ns) =
     le_bytes 2 (layer n - current_layer) @ le_bytes 1 (instrument n) @ le_bytes 1 (key n)
     @ chord_bytes (layer n) ns"

fun chords_bytes :: "int \<Rightarrow> (int \<times> Note list) list \<Rightarrow> byte list" where
  "chords_bytes current_tick [] = []"
| "chords_bytes current_tick ((t, chord) # rest) =
     le_bytes 2 (t - current_tick) @ chord_bytes (- 1) chord @ le_bytes 2 0
     @ chords_bytes t rest"

fun chords_ok :: "int \<Rightarrow> (int \<times> Note list) list \<Rightarrow> bool" where
  "chords_ok current_tick [] = True"
| "chords_ok current_tick ((t, chord) # rest) =
     (current_tick < t \<and> t \<le> 32766
      \<and> (\<forall>n\<in>set chord. note_ok n \<and> tick n = t)
      \<and> sorted_wrt (\<lambda>a b. layer a < layer b) chord
      \<and> chords_ok t rest)"

text \<open>
  The strings \<^verbatim>\<open>encode_string\<close> can write: every code point can be encoded (it is a
  Unicode scalar value) and the number of code points fits the 32-bit prefix. The
  instruments \<^verbatim>\<open>write_instruments\<close> can write: both strings can be written and the
  pitch fits a signed byte.
\<close>

definition encodable :: "str \<Rightarrow> bool" where
  "encodable s \<longleftrightarrow> (\<forall>c\<in>set s. c \<le> 0x10FFFF \<and> \<not> (0xD800 \<le> c \<and> c \<le> 0xDFFF))"

definition string_ok :: "str \<Rightarrow> bool" where
  "string_ok s \<longleftrightarrow> length s \<le> 2147483647 \<and> encodable s"

definition instrument_ok :: "Instrument \<Rightarrow> bool" where
  "instrument_ok i \<longleftrightarrow>
     string_ok (instrument_name i) \<and> string_ok (instrument_file i)
     \<and> - 128 \<le> pitch i \<and> pitch i \<le> 127"

text \<open>
  A parser raises only the exceptions of \<open>E\<close>.
\<close>

definition raises_only :: "error set \<Rightarrow> 'a io \<Rightarrow> bool" where
  "raises_only E p \<longleftrightarrow> (\<forall>buf e b. p buf = (Inl e, b) \<longrightarrow> e \<in> E)"




section \<open>Packing and unpacking\<close>

lemma le_uint_bounds: "0 \<le> le_uint bs \<and> le_uint bs < 256 ^ length bs"
proof (induction bs)
  case Nil
  show ?case by simp
next
  case (Cons b bs)
  have "0 \<le> uint b" "uint b < 256" using uint_lt2p[of b] by simp_all
  with Cons show ?case by (auto simp: algebra_simps)
qed

lemma length_le_bytes [simp]: "length (le_bytes n v) = n"
  by (induction n arbitrary: v) simp_all

lemma le_uint_le_bytes: "le_uint (le_bytes n v) = v mod 256 ^ n"
proof (induction n arbitrary: v)
  case 0
  show ?case by simp
next
  case (Suc n)
  have "uint (word_of_int v :: byte) = v mod 256" by (simp add: uint_word_of_int)
  then show ?case using Suc[of "v div 256"] zmod_zmult2_eq[of "256 ^ n" v 256]
    by simp
qed

lemma signed_mod:
  fixes v m :: int
  assumes "- m \<le> v" "v < m"
  shows "(m \<le> v mod (2 * m) \<longrightarrow> v mod (2 * m) - 2 * m = v) \<and>
         (\<not> m \<le> v mod (2 * m) \<longrightarrow> v mod (2 * m) = v)"
proof (cases "0 \<le> v")
  case True
  with assms have "v mod (2 * m) = v" by simp
  with assms show ?thesis by simp
next
  case False
  have "v mod (2 * m) = (v + 2 * m) mod (2 * m)" by simp
  also have "\<dots> = v + 2 * m" using assms False by (intro mod_pos_pos_trivial) simp_all
  finally show ?thesis using assms False by simp
qed

lemma unpack_pack:
  assumes "pack f v = Inr bs"
  shows "unpack f bs = Inr v"
proof -
  from assms have r: "- (2 ^ (8 * fmt_size f - 1)) \<le> v" "v < 2 ^ (8 * fmt_size f - 1)"
    and bs: "bs = le_bytes (fmt_size f) v"
    by (auto simp: pack_def split: if_splits)
  have e: "(256::int) ^ fmt_size f = 2 * 2 ^ (8 * fmt_size f - 1)"
    by (cases f) simp_all
  have e2: "(2::int) ^ (8 * fmt_size f) = 2 * 2 ^ (8 * fmt_size f - 1)"
    by (cases f) simp_all
  show ?thesis
    using signed_mod[OF r] unfolding bs
    by (simp add: unpack_def le_uint_le_bytes e e2)
qed

lemma unpack_range:
  assumes "unpack f bs = Inr v"
  shows "- (2 ^ (8 * fmt_size f - 1)) \<le> v \<and> v < 2 ^ (8 * fmt_size f - 1)"
proof -
  from assms have l: "length bs = fmt_size f" by (auto simp: unpack_def split: if_splits)
  have e: "(256::int) ^ fmt_size f = 2 * 2 ^ (8 * fmt_size f - 1)"
    by (cases f) simp_all
  have e2: "(2::int) ^ (8 * fmt_size f) = 2 * 2 ^ (8 * fmt_size f - 1)"
    by (cases f) simp_all
  from le_uint_bounds[of bs] l e have "0 \<le> le_uint bs" "le_uint bs < 2 * 2 ^ (8 * fmt_size f - 1)"
    by simp_all
  with assms l show ?thesis
    by (auto simp: unpack_def e2 split: if_splits)
qed

lemmas io_defs = io_bind_def io_return_def io_lift_def

lemma le_bytes_numeral:
  "le_bytes 1 v = [word_of_int v]"
  "le_bytes 2 v = [word_of_int v, word_of_int (v div 256)]"
  "le_bytes 4 v = [word_of_int v, word_of_int (v div 256), word_of_int (v div 256 div 256),
                   word_of_int (v div 256 div 256 div 256)]"
  by (simp_all add: eval_nat_numeral)

lemma read_numeric_pack:
  assumes "pack f v = Inr bs"
  shows "read_numeric f (bs @ rest) = (Inr v, rest)"
proof -
  from assms have "length bs = fmt_size f" by (auto simp: pack_def split: if_splits)
  with unpack_pack[OF assms] show ?thesis
    by (simp add: read_numeric_def io_defs buffer_read_def)
qed

lemma encode_numeric_Inr:
  "pack f v = Inr bs \<Longrightarrow> encode_numeric f v out = (Inr (), out @ bs)"
  by (simp add: encode_numeric_def io_defs buffer_write_def)

lemma encode_numeric_Inl:
  "pack f v = Inl e \<Longrightarrow> encode_numeric f v out = (Inl e, out)"
  by (simp add: encode_numeric_def io_defs)

lemma read_numeric_short:
  "length buf < fmt_size f \<Longrightarrow> read_numeric f buf = (Inl StructError, [])"
  by (simp add: read_numeric_def io_defs buffer_read_def unpack_def)

lemma read_numeric_BYTE:
  "read_numeric BYTE (b # bs) = (Inr (if 128 \<le> uint b then uint b - 256 else uint b), bs)"
  by (simp add: read_numeric_def io_defs buffer_read_def unpack_def)

lemma read_numeric_SHORT:
  "read_numeric SHORT (b0 # b1 # bs) =
     (Inr (if 32768 \<le> uint b0 + 256 * uint b1 then uint b0 + 256 * uint b1 - 65536
           else uint b0 + 256 * uint b1), bs)"
  by (simp add: read_numeric_def io_defs buffer_read_def unpack_def)

lemma read_numeric_INT:
  "read_numeric INT_fmt (b0 # b1 # b2 # b3 # bs) =
     (Inr (if 2147483648 \<le> le_uint [b0, b1, b2, b3] then le_uint [b0, b1, b2, b3] - 4294967296
           else le_uint [b0, b1, b2, b3]), bs)"
  by (simp add: read_numeric_def io_defs buffer_read_def unpack_def)

lemma jump_from_unfold:
  "jump_from v =
     io_bind (read_numeric SHORT) (\<lambda>jmp.
       if jmp = 0 then io_return []
       else io_bind (jump_from (v + jmp)) (\<lambda>vs. io_return ((v + jmp) # vs)))"
  by (rule ext, subst jump_from.simps) (simp add: io_defs split: prod.splits sum.splits)

lemma parse_notes_inner_unfold:
  "parse_notes_inner t v =
     io_bind (read_numeric SHORT) (\<lambda>jmp.
       if jmp = 0 then io_return []
       else io_bind (read_numeric BYTE) (\<lambda>i.
            io_bind (read_numeric BYTE) (\<lambda>k.
            io_bind (parse_notes_inner t (v + jmp)) (\<lambda>ns.
            io_return (Note t (v + jmp) i k # ns)))))"
  by (rule ext, subst parse_notes_inner.simps) (simp add: io_defs split: prod.splits sum.splits)

lemma parse_notes_outer_unfold:
  "parse_notes_outer v =
     io_bind (read_numeric SHORT) (\<lambda>jmp.
       if jmp = 0 then io_return []
       else io_bind (parse_notes_inner (v + jmp) (- 1)) (\<lambda>chord.
            io_bind (parse_notes_outer (v + jmp)) (\<lambda>ns.
            io_return (chord @ ns))))"
  by (rule ext, subst parse_notes_outer.simps) (simp add: io_defs split: prod.splits sum.splits)

lemma encode_numeric_eval:
  "encode_numeric f v out =
     (case pack f v of Inl e \<Rightarrow> (Inl e, out) | Inr bs \<Rightarrow> (Inr (), out @ bs))"
  by (simp add: encode_numeric_def io_defs buffer_write_def split: sum.splits)

lemma encode_string_eval:
  "encode_string s out =
     (case pack INT_fmt (int (length s)) of
        Inl e \<Rightarrow> (Inl e, out)
      | Inr bs \<Rightarrow> (case utf8_encode s of
                     Inl e \<Rightarrow> (Inl e, out @ bs)
                   | Inr cs \<Rightarrow> (Inr (), out @ bs @ cs)))"
  by (simp add: encode_string_def encode_numeric_eval io_defs buffer_write_def split: sum.splits)

section \<open>Facts about the stream monad and the loops\<close>

lemma io_bind_Inr_E:
  assumes "io_bind m f buf = (Inr y, rest)"
  obtains x b where "m buf = (Inr x, b)" "f x b = (Inr y, rest)"
  using assms by (auto simp: io_bind_def split: prod.splits sum.splits)

lemma io_return_Inr [simp]: "io_return x buf = (Inr y, rest) \<longleftrightarrow> y = x \<and> rest = buf"
  by (auto simp: io_return_def)

lemma read_numeric_range:
  assumes "read_numeric f buf = (Inr v, b)"
  shows "- (2 ^ (8 * fmt_size f - 1)) \<le> v \<and> v < 2 ^ (8 * fmt_size f - 1)"
proof -
  from assms have "unpack f (take (fmt_size f) buf) = Inr v"
    by (auto simp: read_numeric_def io_defs buffer_read_def split: if_splits)
  then show ?thesis by (rule unpack_range)
qed

lemma le_bytes_shift: "le_bytes n (v + k * 256 ^ n) = le_bytes n v"
proof (induction n arbitrary: v k)
  case 0
  show ?case by simp
next
  case (Suc n)
  have z: "(256::byte) = 0" by simp
  have a: "(word_of_int (v + k * 256 ^ Suc n) :: byte) = word_of_int v"
    by (simp add: z)
  have b: "(v + k * 256 ^ Suc n) div 256 = v div 256 + k * 256 ^ n"
    by simp
  show ?case using Suc[of "v div 256" k] by (simp only: le_bytes.simps a b)
qed

lemma le_bytes_le_uint: "le_bytes (length bs) (le_uint bs) = bs"
proof (induction bs)
  case Nil
  show ?case by simp
next
  case (Cons b bs)
  have z: "(256::byte) = 0" by simp
  have a: "(word_of_int (uint b + 256 * le_uint bs) :: byte) = b"
    by (simp add: z)
  have "0 \<le> uint b" "uint b < 256" using uint_lt2p[of b] by simp_all
  then have b: "(uint b + 256 * le_uint bs) div 256 = le_uint bs" by simp
  show ?case using Cons by (simp only: le_uint.simps length_Cons le_bytes.simps a b)
qed

lemma le_bytes_unpack:
  assumes "unpack f bs = Inr v"
  shows "le_bytes (fmt_size f) v = bs"
proof -
  from assms have l: "length bs = fmt_size f" by (auto simp: unpack_def split: if_splits)
  have e: "(2::int) ^ (8 * fmt_size f) = 256 ^ fmt_size f" by (cases f) simp_all
  from assms l have "v = le_uint bs \<or> v = le_uint bs + (- 1) * 256 ^ fmt_size f"
    by (auto simp: unpack_def e split: if_splits)
  then show ?thesis using le_bytes_le_uint[of bs] le_bytes_shift[of "fmt_size f" "le_uint bs" "- 1"] l
    by auto
qed

lemma read_numeric_Inr_bytes:
  assumes "read_numeric f buf = (Inr v, b)"
  shows "buf = le_bytes (fmt_size f) v @ b"
proof -
  from assms have u: "unpack f (take (fmt_size f) buf) = Inr v" and b: "b = drop (fmt_size f) buf"
    by (auto simp: read_numeric_def io_defs buffer_read_def split: if_splits)
  from le_bytes_unpack[OF u] b show ?thesis by simp
qed

lemma accumulate_increasing:
  "\<forall>j\<in>set js. 0 < j \<Longrightarrow> sorted_wrt (<) (accumulate v js) \<and> (\<forall>x\<in>set (accumulate v js). v < x)"
proof (induction js arbitrary: v)
  case Nil
  show ?case by simp
next
  case (Cons j js)
  from Cons.prems have j: "0 < j" and r: "\<forall>j\<in>set js. 0 < j" by simp_all
  from Cons.IH[OF r, of "v + j"] j show ?case by fastforce
qed

lemma jump_from_Inr:
  "jump_from v buf = (Inr vs, rest) \<Longrightarrow>
     \<exists>js. buf = concat (map (le_bytes 2) js) @ le_bytes 2 0 @ rest
         \<and> (\<forall>j\<in>set js. j \<noteq> 0 \<and> - 32768 \<le> j \<and> j \<le> 32767)
         \<and> vs = accumulate v js"
proof (induction v buf arbitrary: vs rest rule: jump_from.induct)
  case (1 v buf)
  from "1.prems" obtain j b1 where
    s1: "read_numeric SHORT buf = (Inr j, b1)" and
    k1: "(if j = 0 then io_return []
          else io_bind (jump_from (v + j)) (\<lambda>vs. io_return ((v + j) # vs))) b1 = (Inr vs, rest)"
    by (subst (asm) jump_from_unfold) (erule io_bind_Inr_E)
  from read_numeric_Inr_bytes[OF s1] have buf: "buf = le_bytes 2 j @ b1" by simp
  from read_numeric_range[OF s1] have rng: "- 32768 \<le> j" "j \<le> 32767" by simp_all
  show ?case
  proof (cases "j = 0")
    case True
    with k1 buf have "buf = concat (map (le_bytes 2) []) @ le_bytes 2 0 @ rest" "vs = accumulate v []"
      by simp_all
    then show ?thesis by (intro exI[of _ "[]"]) simp
  next
    case False
    with k1 obtain ws where r: "jump_from (v + j) b1 = (Inr ws, rest)" and vs: "vs = (v + j) # ws"
      by (auto elim!: io_bind_Inr_E)
    from "1.IH"[OF s1[symmetric] refl False r] obtain js where
      js: "b1 = concat (map (le_bytes 2) js) @ le_bytes 2 0 @ rest"
          "\<forall>j\<in>set js. j \<noteq> 0 \<and> - 32768 \<le> j \<and> j \<le> 32767" "ws = accumulate (v + j) js"
      by blast
    show ?thesis
      using js buf rng False vs by (intro exI[of _ "j # js"]) simp
  qed
qed

lemma jump_example: "jump [1, 0, 5, 0, 0, 0] = (Inr [0, 5], [])"
  unfolding jump_def by (simp add: jump_from.simps read_numeric_SHORT)

lemma parse_notes_inner_bytes:
  "parse_notes_inner t v buf = (Inr ns, rest) \<Longrightarrow>
     \<forall>n\<in>set ns. - 128 \<le> instrument n \<and> instrument n \<le> 127 \<and> - 128 \<le> key n \<and> key n \<le> 127"
proof (induction t v buf arbitrary: ns rest rule: parse_notes_inner.induct)
  case (1 t v buf)
  from "1.prems" obtain j b1 where
    s1: "read_numeric SHORT buf = (Inr j, b1)" and
    k1: "(if j = 0 then io_return []
          else io_bind (read_numeric BYTE) (\<lambda>i.
               io_bind (read_numeric BYTE) (\<lambda>k.
               io_bind (parse_notes_inner t (v + j)) (\<lambda>ns.
               io_return (Note t (v + j) i k # ns))))) b1 = (Inr ns, rest)"
    by (subst (asm) parse_notes_inner_unfold) (erule io_bind_Inr_E)
  show ?case
  proof (cases "j = 0")
    case True
    with k1 show ?thesis by simp
  next
    case False
    with k1 obtain i b2 k b3 ms where
      s2: "read_numeric BYTE b1 = (Inr i, b2)" and
      s3: "read_numeric BYTE b2 = (Inr k, b3)" and
      r: "parse_notes_inner t (v + j) b3 = (Inr ms, rest)" and
      ns: "ns = Note t (v + j) i k # ms"
      by (auto elim!: io_bind_Inr_E)
    from read_numeric_range[OF s2] read_numeric_range[OF s3]
    have "- 128 \<le> i" "i \<le> 127" "- 128 \<le> k" "k \<le> 127" by simp_all
    moreover note "1.IH"[OF s1[symmetric] refl False s2[symmetric] refl s3[symmetric] refl r]
    ultimately show ?thesis using ns by simp
  qed
qed

lemma parse_notes_outer_bytes:
  "parse_notes_outer v buf = (Inr ns, rest) \<Longrightarrow>
     \<forall>n\<in>set ns. - 128 \<le> instrument n \<and> instrument n \<le> 127 \<and> - 128 \<le> key n \<and> key n \<le> 127"
proof (induction v buf arbitrary: ns rest rule: parse_notes_outer.induct)
  case (1 v buf)
  from "1.prems" obtain j b1 where
    s1: "read_numeric SHORT buf = (Inr j, b1)" and
    k1: "(if j = 0 then io_return []
          else io_bind (parse_notes_inner (v + j) (- 1)) (\<lambda>chord.
               io_bind (parse_notes_outer (v + j)) (\<lambda>ns.
               io_return (chord @ ns)))) b1 = (Inr ns, rest)"
    by (subst (asm) parse_notes_outer_unfold) (erule io_bind_Inr_E)
  show ?case
  proof (cases "j = 0")
    case True
    with k1 show ?thesis by simp
  next
    case False
    with k1 obtain chord b2 ms where
      s2: "parse_notes_inner (v + j) (- 1) b1 = (Inr chord, b2)" and
      r: "parse_notes_outer (v + j) b2 = (Inr ms, rest)" and
      ns: "ns = chord @ ms"
      by (auto elim!: io_bind_Inr_E)
    from parse_notes_inner_bytes[OF s2] "1.IH"[OF s1[symmetric] refl False s2[symmetric] refl r] ns
    show ?thesis by auto
  qed
qed

lemma parse_notes_example:
  "parse_notes [1, 0, 1, 0, 0xFF, 0x80, 0, 0, 0, 0] = (Inr [Note 0 0 (- 1) (- 128)], [])"
  unfolding parse_notes_def
  by (simp add: parse_notes_outer.simps parse_notes_inner.simps read_numeric_SHORT
      read_numeric_BYTE)

section \<open>Writing and reading the note grid\<close>

lemma read_numeric_le_bytes:
  "- 128 \<le> v \<Longrightarrow> v \<le> 127 \<Longrightarrow> read_numeric BYTE (le_bytes 1 v @ R) = (Inr v, R)"
  "- 32768 \<le> v \<Longrightarrow> v \<le> 32767 \<Longrightarrow> read_numeric SHORT (le_bytes 2 v @ R) = (Inr v, R)"
  "- 2147483648 \<le> v \<Longrightarrow> v \<le> 2147483647 \<Longrightarrow>
     read_numeric INT_fmt (le_bytes 4 v @ R) = (Inr v, R)"
  using read_numeric_pack[of BYTE v "le_bytes 1 v" R]
        read_numeric_pack[of SHORT v "le_bytes 2 v" R]
        read_numeric_pack[of INT_fmt v "le_bytes 4 v" R]
  by (simp_all add: pack_def)

lemma read_numeric_BYTE_word:
  "- 128 \<le> v \<Longrightarrow> v \<le> 127 \<Longrightarrow> read_numeric BYTE (word_of_int v # R) = (Inr v, R)"
  using read_numeric_le_bytes(1)[of v R] by (simp add: le_bytes_numeral)

lemma encode_numeric_le_bytes:
  "- 128 \<le> v \<Longrightarrow> v \<le> 127 \<Longrightarrow> encode_numeric BYTE v out = (Inr (), out @ le_bytes 1 v)"
  "- 32768 \<le> v \<Longrightarrow> v \<le> 32767 \<Longrightarrow> encode_numeric SHORT v out = (Inr (), out @ le_bytes 2 v)"
  "- 2147483648 \<le> v \<Longrightarrow> v \<le> 2147483647 \<Longrightarrow>
     encode_numeric INT_fmt v out = (Inr (), out @ le_bytes 4 v)"
  by (simp_all add: encode_numeric_eval pack_def)

lemma io_bind_Inr: "m buf = (Inr x, b) \<Longrightarrow> io_bind m f buf = f x b"
  by (simp add: io_bind_def)

lemma write_chord_bytes:
  assumes "\<forall>n\<in>set c. note_ok n" "sorted_wrt (\<lambda>a b. layer a < layer b) c"
    "- 1 \<le> cl" "\<forall>n\<in>set c. cl < layer n"
  shows "write_chord cl c out = (Inr (), out @ chord_bytes cl c)"
  using assms
proof (induction c arbitrary: cl out)
  case Nil
  show ?case by (simp add: io_return_def)
next
  case (Cons n c)
  from Cons.prems have ok: "note_ok n" and lt: "cl < layer n" by simp_all
  have IH: "write_chord (layer n) c out' = (Inr (), out' @ chord_bytes (layer n) c)" for out'
    using Cons.prems by (intro Cons.IH) (auto simp: note_ok_def)
  from ok lt Cons.prems(3) show ?case
    by (simp add: note_ok_def io_bind_def encode_numeric_le_bytes IH)
qed

lemma parse_notes_inner_chord_bytes:
  assumes "\<forall>n\<in>set c. note_ok n \<and> tick n = t" "sorted_wrt (\<lambda>a b. layer a < layer b) c"
    "- 1 \<le> cl" "\<forall>n\<in>set c. cl < layer n"
  shows "parse_notes_inner t cl (chord_bytes cl c @ le_bytes 2 0 @ R) = (Inr c, R)"
  using assms
proof (induction c arbitrary: cl)
  case Nil
  show ?case
    by (subst parse_notes_inner_unfold) (simp add: io_bind_def read_numeric_le_bytes io_return_def)
next
  case (Cons n c)
  from Cons.prems have ok: "note_ok n" and t: "tick n = t" and lt: "cl < layer n" by simp_all
  have IH: "parse_notes_inner t (layer n) (chord_bytes (layer n) c @ le_bytes 2 0 @ R) = (Inr c, R)"
    using Cons.prems by (intro Cons.IH) (auto simp: note_ok_def)
  have n: "Note t (layer n) (instrument n) (key n) = n" using t by (cases n) simp
  from ok lt Cons.prems(3) show ?case
    by (subst parse_notes_inner_unfold)
       (simp add: note_ok_def io_bind_def read_numeric_le_bytes read_numeric_BYTE_word IH
          io_return_def n)
qed

lemma note_ok_layer: "\<forall>n\<in>set c. note_ok n \<and> P n \<Longrightarrow> \<forall>n\<in>set c. - 1 < layer n"
  by (auto simp: note_ok_def)

lemma write_chords_bytes:
  "chords_ok ct cs \<Longrightarrow> - 1 \<le> ct \<Longrightarrow>
     write_chords ct cs out = (Inr (), out @ chords_bytes ct cs)"
proof (induction cs arbitrary: ct out)
  case Nil
  show ?case by (simp add: io_return_def)
next
  case (Cons p cs)
  obtain t c where p: "p = (t, c)" by (cases p)
  from Cons.prems p have t: "ct < t" "t \<le> 32766" and ok: "\<forall>n\<in>set c. note_ok n \<and> tick n = t"
    and srt: "sorted_wrt (\<lambda>a b. layer a < layer b) c" and rest: "chords_ok t cs"
    by simp_all
  have wc: "write_chord (- 1) c out' = (Inr (), out' @ chord_bytes (- 1) c)" for out'
    using ok srt by (intro write_chord_bytes) (auto simp: note_ok_def)
  have IH: "write_chords t cs out' = (Inr (), out' @ chords_bytes t cs)" for out'
    using rest t Cons.prems(2) by (intro Cons.IH) simp_all
  from t Cons.prems(2) show ?case
    by (simp add: p io_bind_def encode_numeric_le_bytes wc IH)
qed

lemma parse_notes_outer_chords_bytes:
  "chords_ok ct cs \<Longrightarrow> - 1 \<le> ct \<Longrightarrow>
     parse_notes_outer ct (chords_bytes ct cs @ le_bytes 2 0 @ R) = (Inr (concat (map snd cs)), R)"
proof (induction cs arbitrary: ct)
  case Nil
  show ?case
    by (subst parse_notes_outer_unfold) (simp add: io_bind_def read_numeric_le_bytes io_return_def)
next
  case (Cons p cs)
  obtain t c where p: "p = (t, c)" by (cases p)
  from Cons.prems p have t: "ct < t" "t \<le> 32766" and ok: "\<forall>n\<in>set c. note_ok n \<and> tick n = t"
    and srt: "sorted_wrt (\<lambda>a b. layer a < layer b) c" and rest: "chords_ok t cs"
    by simp_all
  have inner: "parse_notes_inner t (- 1) (chord_bytes (- 1) c @ le_bytes 2 0 @ R') = (Inr c, R')" for R'
    using ok srt by (intro parse_notes_inner_chord_bytes) (auto simp: note_ok_def)
  have IH: "parse_notes_outer t (chords_bytes t cs @ le_bytes 2 0 @ R) = (Inr (concat (map snd cs)), R)"
    using rest t Cons.prems(2) by (intro Cons.IH) simp_all
  have tt: "ct + (t - ct) = t" by simp
  from t Cons.prems(2) show ?case
    by (subst parse_notes_outer_unfold)
       (simp add: p io_bind_def read_numeric_le_bytes inner IH io_return_def tt)
qed

lemma note_before_same_tick:
  "sorted_wrt note_before c \<Longrightarrow> \<forall>n\<in>set c. tick n = t \<Longrightarrow> sorted_wrt (\<lambda>a b. layer a < layer b) c"
  by (induction c) (auto simp: note_before_def)

lemma note_before_sorted_ticks: "sorted_wrt note_before ns \<Longrightarrow> sorted (map tick ns)"
  by (induction ns) (auto simp: note_before_def)

lemma iter_loop_chords:
  assumes "sorted_wrt note_before (chord @ rest)" "\<forall>n\<in>set chord. tick n = cur"
    "\<forall>n\<in>set rest. cur \<le> tick n" "\<forall>n\<in>set (chord @ rest). note_ok n"
    "ct < cur" "cur \<le> 32766"
  shows "chords_ok ct (iter_loop cur chord rest)
         \<and> concat (map snd (iter_loop cur chord rest)) = chord @ rest"
  using assms
proof (induction rest arbitrary: cur chord ct)
  case Nil
  then show ?case by (auto dest: note_before_same_tick)
next
  case (Cons n rest)
  show ?case
  proof (cases "tick n = cur")
    case True
    have "chords_ok ct (iter_loop cur (chord @ [n]) rest)
         \<and> concat (map snd (iter_loop cur (chord @ [n]) rest)) = (chord @ [n]) @ rest"
      using Cons.prems True by (intro Cons.IH) auto
    with True show ?thesis by simp
  next
    case False
    with Cons.prems(3) have lt: "cur < tick n" by auto
    from Cons.prems(1) have s1: "sorted_wrt note_before chord" and s2: "sorted_wrt note_before (n # rest)"
      by (auto simp: sorted_wrt_append)
    from note_before_same_tick[OF s1 Cons.prems(2)]
    have sl: "sorted_wrt (\<lambda>a b. layer a < layer b) chord" .
    then have "sorted (map layer chord)"
      by (induction chord) (auto simp: less_imp_le)
    then have sk: "sort_key layer chord = chord" by (rule sort_key_id_if_sorted)
    from s2 have ge: "\<forall>m\<in>set rest. tick n \<le> tick m" by (auto simp: note_before_def)
    from Cons.prems(4) have okn: "note_ok n" by simp
    have "chords_ok cur (iter_loop (tick n) [n] rest)
         \<and> concat (map snd (iter_loop (tick n) [n] rest)) = [n] @ rest"
      using s2 ge Cons.prems(4) lt okn by (intro Cons.IH) (auto simp: note_ok_def)
    with False sk sl Cons.prems show ?thesis by simp
  qed
qed

lemma File_iter_chords:
  assumes "sorted_wrt note_before (file_notes f)" "\<forall>n\<in>set (file_notes f). note_ok n"
  shows "chords_ok (- 1) (File_iter f) \<and> concat (map snd (File_iter f)) = file_notes f"
proof (cases "file_notes f")
  case Nil
  then show ?thesis by (simp add: File_iter_def)
next
  case (Cons n ns)
  from assms(1) have sk: "sort_key tick (file_notes f) = file_notes f"
    by (intro sort_key_id_if_sorted note_before_sorted_ticks)
  from assms(1) Cons have ge: "\<forall>m\<in>set (file_notes f). tick n \<le> tick m"
    by (auto simp: note_before_def)
  from assms(2) Cons have okn: "note_ok n" by simp
  have "chords_ok (- 1) (iter_loop (tick n) [] (file_notes f))
        \<and> concat (map snd (iter_loop (tick n) [] (file_notes f))) = [] @ file_notes f"
    using assms ge okn by (intro iter_loop_chords) (auto simp: note_ok_def)
  with sk Cons show ?thesis by (simp add: File_iter_def)
qed

lemma write_notes_bytes:
  assumes "sorted_wrt note_before (file_notes f)" "\<forall>n\<in>set (file_notes f). note_ok n"
  shows "write_notes f out = (Inr (), out @ chords_bytes (- 1) (File_iter f) @ le_bytes 2 0)"
  using write_chords_bytes[of "- 1" "File_iter f"] File_iter_chords[OF assms]
  by (simp add: write_notes_def io_bind_def encode_numeric_le_bytes)

lemma parse_notes_bytes:
  assumes "sorted_wrt note_before (file_notes f)" "\<forall>n\<in>set (file_notes f). note_ok n"
  shows "parse_notes (chords_bytes (- 1) (File_iter f) @ le_bytes 2 0 @ R) = (Inr (file_notes f), R)"
  using parse_notes_outer_chords_bytes[of "- 1" "File_iter f" R] File_iter_chords[OF assms]
  by (simp add: parse_notes_def)

lemma jump_from_bytes:
  "\<forall>j\<in>set js. j \<noteq> 0 \<and> - 32768 \<le> j \<and> j \<le> 32767 \<Longrightarrow>
     jump_from v (concat (map (le_bytes 2) js) @ le_bytes 2 0 @ rest)
       = (Inr (accumulate v js), rest)"
proof (induction js arbitrary: v)
  case Nil
  have "read_numeric SHORT (le_bytes 2 0 @ rest) = (Inr 0, rest)"
    by (rule read_numeric_le_bytes) simp_all
  then show ?case
    by (subst jump_from_unfold) (simp add: io_bind_def io_return_def del: le_bytes.simps)
next
  case (Cons j js)
  from Cons.prems have j: "j \<noteq> 0" "- 32768 \<le> j" "j \<le> 32767"
    and r: "\<forall>j\<in>set js. j \<noteq> 0 \<and> - 32768 \<le> j \<and> j \<le> 32767" by simp_all
  have "read_numeric SHORT (le_bytes 2 j @ concat (map (le_bytes 2) js) @ le_bytes 2 0 @ rest)
          = (Inr j, concat (map (le_bytes 2) js) @ le_bytes 2 0 @ rest)"
    using j by (intro read_numeric_le_bytes)
  then show ?case using j Cons.IH[OF r, of "v + j"]
    by (subst jump_from_unfold) (simp add: io_bind_def io_return_def del: le_bytes.simps)
qed

lemma jump_from_Inl: "jump_from v buf = (Inl e, rest) \<Longrightarrow> e = StructError"
proof (induction v buf arbitrary: e rest rule: jump_from.induct)
  case (1 v buf)
  show ?case
  proof (cases "read_numeric SHORT buf")
    case (Pair r b1)
    show ?thesis
    proof (cases r)
      case (Inl e1)
      with Pair have "e1 = StructError"
        by (auto simp: read_numeric_def io_defs buffer_read_def unpack_def split: if_splits)
      with Pair Inl "1.prems" show ?thesis
        by (subst (asm) jump_from_unfold) (simp add: io_bind_def)
    next
      case (Inr j)
      with Pair have s1: "read_numeric SHORT buf = (Inr j, b1)" by simp
      show ?thesis
      proof (cases "j = 0")
        case True
        with s1 "1.prems" show ?thesis
          by (subst (asm) jump_from_unfold) (simp add: io_bind_def io_return_def)
      next
        case False
        from "1.IH"[OF s1[symmetric] refl False]
        have IH: "\<And>e rest. jump_from (v + j) b1 = (Inl e, rest) \<Longrightarrow> e = StructError" .
        from s1 False "1.prems" show ?thesis
          by (subst (asm) jump_from_unfold)
             (auto simp: io_bind_def io_return_def split: prod.splits sum.splits dest: IH)
      qed
    qed
  qed
qed

section \<open>When the instrument section can be written\<close>

lemma io_bind_fst:
  "fst (io_bind m f buf) = Inr y \<longleftrightarrow> (\<exists>x b. m buf = (Inr x, b) \<and> fst (f x b) = Inr y)"
  by (auto simp: io_bind_def split: prod.splits sum.splits)

lemma io_bind_unit_fst:
  fixes m :: "unit io"
  shows "fst (io_bind m f out) = Inr y \<longleftrightarrow>
           fst (m out) = Inr () \<and> fst (f () (snd (m out))) = Inr y"
  by (cases "m out") (auto simp: io_bind_def split: sum.splits)

lemma utf8_encode_Inr: "(\<exists>bs. utf8_encode s = Inr bs) \<longleftrightarrow> encodable s"
proof (induction s)
  case Nil
  show ?case by (simp add: encodable_def)
next
  case (Cons c s)
  have c: "(\<exists>bs. utf8_encode_char c = Inr bs) \<longleftrightarrow> c \<le> 0x10FFFF \<and> \<not> (0xD800 \<le> c \<and> c \<le> 0xDFFF)"
    by (auto simp: utf8_encode_char_def)
  show ?case
  proof (cases "utf8_encode_char c")
    case (Inl e)
    with c show ?thesis by (auto simp: encodable_def)
  next
    case (Inr bs)
    with c have ok: "c \<le> 0x10FFFF \<and> \<not> (0xD800 \<le> c \<and> c \<le> 0xDFFF)" by auto
    from Cons Inr ok show ?thesis
      by (cases "utf8_encode s") (auto simp: encodable_def)
  qed
qed

lemma encode_numeric_fst:
  "fst (encode_numeric f v out) = Inr () \<longleftrightarrow>
     - (2 ^ (8 * fmt_size f - 1)) \<le> v \<and> v < 2 ^ (8 * fmt_size f - 1)"
  by (simp add: encode_numeric_eval pack_def)

lemma encode_string_fst: "fst (encode_string s out) = Inr () \<longleftrightarrow> string_ok s"
proof -
  have "fst (encode_string s out) = Inr () \<longleftrightarrow>
          int (length s) \<le> 2147483647 \<and> (\<exists>bs. utf8_encode s = Inr bs)"
    by (auto simp: encode_string_eval pack_def split: sum.splits)
  then show ?thesis by (simp add: utf8_encode_Inr string_ok_def)
qed

lemma write_instruments_loop_fst:
  "fst (write_instruments_loop is out) = Inr () \<longleftrightarrow> (\<forall>i\<in>set is. instrument_ok i)"
proof (induction "is" arbitrary: out)
  case Nil
  show ?case by (simp add: io_return_def)
next
  case (Cons i "is")
  show ?case
    by (auto simp add: io_bind_unit_fst encode_string_fst encode_numeric_fst Cons.IH
        instrument_ok_def)
qed

section \<open>The exceptions the parser raises\<close>

lemma raises_onlyD: "raises_only E p \<Longrightarrow> p buf = (Inl e, b) \<Longrightarrow> e \<in> E"
  by (auto simp: raises_only_def)

lemma raises_only_bind:
  "raises_only E m \<Longrightarrow> (\<And>x. raises_only E (f x)) \<Longrightarrow> raises_only E (io_bind m f)"
  by (fastforce simp: raises_only_def io_bind_def split: prod.splits sum.splits)

lemma raises_only_return: "raises_only E (io_return x)"
  by (simp add: raises_only_def io_return_def)

lemma raises_only_read_numeric: "StructError \<in> E \<Longrightarrow> raises_only E (read_numeric f)"
  by (auto simp: raises_only_def read_numeric_def io_defs buffer_read_def unpack_def
      split: if_splits)

lemma utf8_decode_guard:
  assumes "(if g then cons_char c (utf8_decode r) else Inl UnicodeDecodeError) = Inl e"
    and "\<And>e. utf8_decode r = Inl e \<Longrightarrow> e = UnicodeDecodeError"
  shows "e = UnicodeDecodeError"
proof (cases g)
  case False
  with assms(1) show ?thesis by simp
next
  case True
  with assms(1) have "cons_char c (utf8_decode r) = Inl e" by simp
  then have "utf8_decode r = Inl e"
    by (cases "utf8_decode r") (simp_all add: cons_char_def)
  then show ?thesis by (rule assms(2))
qed

lemma utf8_decode_tail1:
  assumes "(case bs of [] \<Rightarrow> Inl UnicodeDecodeError
            | b1 # r \<Rightarrow> if G b1 then cons_char (C b1) (utf8_decode r)
                        else Inl UnicodeDecodeError) = Inl e"
    and "\<And>r e. length r < length bs \<Longrightarrow> utf8_decode r = Inl e \<Longrightarrow> e = UnicodeDecodeError"
  shows "e = UnicodeDecodeError"
proof (cases bs)
  case Nil
  with assms(1) show ?thesis by simp
next
  case (Cons b1 r)
  with assms(1) have "(if G b1 then cons_char (C b1) (utf8_decode r)
                       else Inl UnicodeDecodeError) = Inl e" by simp
  then show ?thesis
    by (rule utf8_decode_guard) (rule assms(2)[of r], simp_all add: Cons)
qed

lemma utf8_decode_tail2:
  assumes "(case bs of [] \<Rightarrow> Inl UnicodeDecodeError | [b1] \<Rightarrow> Inl UnicodeDecodeError
            | b1 # b2 # r \<Rightarrow> if G b1 b2 then cons_char (C b1 b2) (utf8_decode r)
                             else Inl UnicodeDecodeError) = Inl e"
    and "\<And>r e. length r < length bs \<Longrightarrow> utf8_decode r = Inl e \<Longrightarrow> e = UnicodeDecodeError"
  shows "e = UnicodeDecodeError"
proof (cases bs)
  case Nil
  with assms(1) show ?thesis by simp
next
  case c1: (Cons b1 t1)
  show ?thesis
  proof (cases t1)
    case Nil
    with c1 assms(1) show ?thesis by simp
  next
    case c2: (Cons b2 r)
    with c1 assms(1) have "(if G b1 b2 then cons_char (C b1 b2) (utf8_decode r)
                            else Inl UnicodeDecodeError) = Inl e" by simp
    then show ?thesis
      by (rule utf8_decode_guard) (rule assms(2)[of r], simp_all add: c1 c2)
  qed
qed

lemma utf8_decode_tail3:
  assumes "(case bs of [] \<Rightarrow> Inl UnicodeDecodeError | [b1] \<Rightarrow> Inl UnicodeDecodeError
            | [b1, b2] \<Rightarrow> Inl UnicodeDecodeError
            | b1 # b2 # b3 # r \<Rightarrow> if G b1 b2 b3 then cons_char (C b1 b2 b3) (utf8_decode r)
                                  else Inl UnicodeDecodeError) = Inl e"
    and "\<And>r e. length r < length bs \<Longrightarrow> utf8_decode r = Inl e \<Longrightarrow> e = UnicodeDecodeError"
  shows "e = UnicodeDecodeError"
proof (cases bs)
  case Nil
  with assms(1) show ?thesis by simp
next
  case c1: (Cons b1 t1)
  show ?thesis
  proof (cases t1)
    case Nil
    with c1 assms(1) show ?thesis by simp
  next
    case c2: (Cons b2 t2)
    show ?thesis
    proof (cases t2)
      case Nil
      with c1 c2 assms(1) show ?thesis by simp
    next
      case c3: (Cons b3 r)
      with c1 c2 assms(1) have "(if G b1 b2 b3 then cons_char (C b1 b2 b3) (utf8_decode r)
                                 else Inl UnicodeDecodeError) = Inl e" by simp
      then show ?thesis
        by (rule utf8_decode_guard) (rule assms(2)[of r], simp_all add: c1 c2 c3)
    qed
  qed
qed

lemma utf8_decode_Inl: "utf8_decode bs = Inl e \<Longrightarrow> e = UnicodeDecodeError"
proof (induction "length bs" arbitrary: bs e rule: less_induct)
  case less
  show ?case
  proof (cases bs)
    case Nil
    with less.prems show ?thesis by simp
  next
    case (Cons b0 r0)
    have ih: "e = UnicodeDecodeError" if "length r < length r0" "utf8_decode r = Inl e" for r e
      using less.hyps[of r e] Cons that by simp
    have ih0: "e = UnicodeDecodeError" if "utf8_decode r0 = Inl e" for e
      using less.hyps[of r0 e] Cons that by simp
    from less.prems Cons have p: "utf8_decode (b0 # r0) = Inl e" by simp
    consider (a) "unat b0 < 0x80"
      | (b) "\<not> unat b0 < 0x80" "unat b0 < 0xC0"
      | (c) "\<not> unat b0 < 0x80" "\<not> unat b0 < 0xC0" "unat b0 < 0xE0"
      | (d) "\<not> unat b0 < 0x80" "\<not> unat b0 < 0xC0" "\<not> unat b0 < 0xE0" "unat b0 < 0xF0"
      | (e) "\<not> unat b0 < 0x80" "\<not> unat b0 < 0xC0" "\<not> unat b0 < 0xE0" "\<not> unat b0 < 0xF0"
            "unat b0 < 0xF8"
      | (f) "\<not> unat b0 < 0x80" "\<not> unat b0 < 0xC0" "\<not> unat b0 < 0xE0" "\<not> unat b0 < 0xF0"
            "\<not> unat b0 < 0xF8"
      by blast
    then show ?thesis
    proof cases
      case a
      from p have "cons_char (unat b0) (utf8_decode r0) = Inl e"
        by (simp only: utf8_decode.simps a if_True)
      then show ?thesis using ih0 by (auto simp: cons_char_def split: sum.splits)
    next
      case b
      from p have "Inl UnicodeDecodeError = (Inl e :: error + str)"
        by (simp only: utf8_decode.simps b if_True if_False)
      then show ?thesis by simp
    next
      case c
      from p show ?thesis
        apply (simp only: utf8_decode.simps c if_True if_False Let_def)
        apply (erule utf8_decode_tail1)
        apply (erule (1) ih)
        done
    next
      case d
      from p show ?thesis
        apply (simp only: utf8_decode.simps d if_True if_False Let_def)
        apply (erule utf8_decode_tail2)
        apply (erule (1) ih)
        done
    next
      case e
      from p show ?thesis
        apply (simp only: utf8_decode.simps e if_True if_False Let_def)
        apply (erule utf8_decode_tail3)
        apply (erule (1) ih)
        done
    next
      case f
      from p have "Inl UnicodeDecodeError = (Inl e :: error + str)"
        by (simp only: utf8_decode.simps f if_True if_False)
      then show ?thesis by simp
    qed
  qed
qed

lemma raises_only_read_string:
  "{StructError, ValueError, UnicodeDecodeError} \<subseteq> E \<Longrightarrow> raises_only E read_string"
  unfolding read_string_def
  by (intro raises_only_bind raises_only_read_numeric)
     (auto simp: raises_only_def buffer_read_def io_lift_def dest: utf8_decode_Inl
      split: if_splits)


lemma raises_only_parse_notes_inner: "StructError \<in> E \<Longrightarrow> raises_only E (parse_notes_inner t v)"
proof -
  assume E: "StructError \<in> E"
  have "parse_notes_inner t v buf = (Inl e, b) \<Longrightarrow> e \<in> E" for buf e b
  proof (induction t v buf arbitrary: e b rule: parse_notes_inner.induct)
    case (1 t v buf)
    note rn = raises_onlyD[OF raises_only_read_numeric[OF E]]
    show ?case
    proof (cases SHORT buf rule: read_numeric_cases)
      case (err e1 b1)
      with "1.prems" rn[OF err(1)] show ?thesis
        by (simp add: parse_notes_inner.simps[of t v buf])
    next
      case (ok j b1)
      note s1 = this
      show ?thesis
      proof (cases "j = 0")
        case True
        with s1 "1.prems" show ?thesis by (simp add: parse_notes_inner.simps[of t v buf])
      next
        case False
        show ?thesis
        proof (cases BYTE b1 rule: read_numeric_cases)
          case (err e2 b2)
          with s1 False "1.prems" rn[OF err(1)] show ?thesis
            by (simp add: parse_notes_inner.simps[of t v buf])
        next
          case (ok i b2)
          note s2 = this
          show ?thesis
          proof (cases BYTE b2 rule: read_numeric_cases)
            case (err e3 b3)
            with s1 s2 False "1.prems" rn[OF err(1)] show ?thesis
              by (simp add: parse_notes_inner.simps[of t v buf])
          next
            case (ok k b3)
            from "1.IH"[OF s1(1)[symmetric] refl False s2(1)[symmetric] refl ok(1)[symmetric] refl]
            have IH: "parse_notes_inner t (v + j) b3 = (Inl e, b) \<Longrightarrow> e \<in> E" .
            from s1 s2 ok False "1.prems" show ?thesis
              by (auto simp: parse_notes_inner.simps[of t v buf] split: prod.splits sum.splits
                  intro: IH)
          qed
        qed
      qed
    qed
  qed
  then show ?thesis by (auto simp: raises_only_def)
qed

lemma raises_only_parse_notes_outer: "StructError \<in> E \<Longrightarrow> raises_only E (parse_notes_outer v)"
proof -
  assume E: "StructError \<in> E"
  have "parse_notes_outer v buf = (Inl e, b) \<Longrightarrow> e \<in> E" for buf e b
  proof (induction v buf arbitrary: e b rule: parse_notes_outer.induct)
    case (1 v buf)
    note rn = raises_onlyD[OF raises_only_read_numeric[OF E]]
    note ri = raises_onlyD[OF raises_only_parse_notes_inner[OF E]]
    show ?case
    proof (cases SHORT buf rule: read_numeric_cases)
      case (err e1 b1)
      with "1.prems" rn[OF err(1)] show ?thesis
        by (simp add: parse_notes_outer.simps[of v buf])
    next
      case (ok j b1)
      note s1 = this
      show ?thesis
      proof (cases "j = 0")
        case True
        with s1 "1.prems" show ?thesis by (simp add: parse_notes_outer.simps[of v buf])
      next
        case False
        show ?thesis
        proof (cases "parse_notes_inner (v + j) (- 1) b1")
          case (Pair r b2)
          show ?thesis
          proof (cases r)
            case (Inl e2)
            with Pair s1 False "1.prems" ri[of "v + j" "- 1" b1 e2 b2] show ?thesis
              by (simp add: parse_notes_outer.simps[of v buf])
          next
            case (Inr chord)
            from "1.IH"[OF s1(1)[symmetric] refl False Pair[symmetric] Inr]
            have IH: "parse_notes_outer (v + j) b2 = (Inl e, b) \<Longrightarrow> e \<in> E" .
            from s1 Pair Inr False "1.prems" show ?thesis
              by (auto simp: parse_notes_outer.simps[of v buf] split: prod.splits sum.splits
                  intro: IH)
          qed
        qed
      qed
    qed
  qed
  then show ?thesis by (auto simp: raises_only_def)
qed

lemma raises_only_parse_layers_loop:
  "{StructError, ValueError, UnicodeDecodeError} \<subseteq> E \<Longrightarrow> raises_only E (parse_layers_loop i n)"
  by (induction n arbitrary: i)
     (auto intro!: raises_only_bind raises_only_return raises_only_read_string
        raises_only_read_numeric)

lemma raises_only_parse_instruments_loop:
  "{StructError, ValueError, UnicodeDecodeError} \<subseteq> E \<Longrightarrow>
     raises_only E (parse_instruments_loop i n)"
  by (induction n arbitrary: i)
     (auto intro!: raises_only_bind raises_only_return raises_only_read_string
        raises_only_read_numeric)

lemma parse_header_marker:
  assumes s1: "read_numeric SHORT buf = (Inr marker, b1)"
  shows "marker \<noteq> 0 \<Longrightarrow> parse_header centi buf = (Inl DeprecationWarning, b1)"
    and "marker = 0 \<Longrightarrow> parse_header centi buf = (Inl e, b) \<Longrightarrow>
           e \<in> {StructError, ValueError, UnicodeDecodeError}"
proof -
  assume "marker \<noteq> 0"
  then show "parse_header centi buf = (Inl DeprecationWarning, b1)"
    unfolding parse_header_def
    by (subst io_bind_Inr[of "read_numeric SHORT" buf marker b1, OF s1]) (simp add: io_lift_def)
next
  assume m: "marker = 0" and e: "parse_header centi buf = (Inl e, b)"
  show "e \<in> {StructError, ValueError, UnicodeDecodeError}"
    using e unfolding parse_header_def
    apply (subst (asm) io_bind_Inr[of "read_numeric SHORT" buf marker b1, OF s1])
    apply (simp only: m simp_thms if_False)
    apply (erule raises_onlyD[rotated])
    apply (intro raises_only_bind raises_only_return raises_only_read_string
        raises_only_read_numeric)
    apply simp_all
    done
qed

lemma io_bind_Inl_E:
  assumes "io_bind m f buf = (Inl e, rest)"
  obtains (first) "m buf = (Inl e, rest)"
        | (later) x b where "m buf = (Inr x, b)" "f x b = (Inl e, rest)"
  using assms by (auto simp: io_bind_def split: prod.splits sum.splits)

lemma raises_only_read_body:
  "raises_only {StructError, ValueError, UnicodeDecodeError}
     (io_bind parse_notes (\<lambda>notes'.
      io_bind (parse_layers n) (\<lambda>layers'.
      io_bind parse_instruments (\<lambda>instruments'.
      io_return (g notes' layers' instruments')))))"
  unfolding parse_notes_def parse_layers_def parse_instruments_def
  by (intro raises_only_bind raises_only_return raises_only_read_numeric
      raises_only_parse_notes_outer raises_only_parse_layers_loop
      raises_only_parse_instruments_loop) simp_all

lemma read_string_empty: "read_string (0 # 0 # 0 # 0 # R) = (Inr [], R)"
  by (simp add: read_string_def read_numeric_INT io_defs buffer_read_def)

lemma read_file_default_bytes:
  "read_file centi
     ([0, 0, 3, 16, 0, 0, 1, 0, 0, 0, 0, 0, 0, 0, 0, 0, 0, 0, 0, 0, 0, 0, 0, 0,
       232, 3, 0, 10, 4, 0, 0, 0, 0, 0, 0, 0, 0, 0, 0, 0, 0, 0, 0, 0, 0, 0, 0,
       0, 0, 0, 0, 0, 0, 0, 0, 0, 0, 0, 0, 100, 100, 0] @ R)
   = (Inr \<lparr>header = (Header_init (centi 1000))\<lparr>song_layers := 1\<rparr>, file_notes = [],
           layers = [Layer 0 [] 100 100], instruments = []\<rparr>, R)"
  by (simp add: read_file_def parse_header_def parse_notes_def parse_layers_def
      parse_instruments_def parse_notes_outer.simps io_bind_def io_return_def
      read_numeric_BYTE read_numeric_SHORT read_numeric_INT read_string_empty Header_init_def)

section \<open>Reading a truncated stream\<close>

























section \<open>Chord grouping\<close>

text \<open>
  Claim C2. Iterating a \<^verbatim>\<open>File\<close> should yield the chords in ascending tick order,
  each chord sorted by layer: for the notes \<open>[(5,1), (5,0), (2,3)]\<close> the pair of tick 2
  and then the pair of tick 5 with the layers 0 and 1. The generator takes its first
  \<open>current_tick\<close> from the first note of the unsorted list and never sorts the chord it
  yields last, so on these notes it yields an empty chord for tick 5 first, then tick 2,
  then tick 5 with the layers in the order 1, 0.
\<close>

theorem File_iter_unsorted_notes:
  "File_iter \<lparr>header = h,
              file_notes = [Note 5 1 i1 k1, Note 5 0 i2 k2, Note 2 3 i3 k3],
              layers = ls, instruments = is\<rparr>
     = [(5, []), (2, [Note 2 3 i3 k3]), (5, [Note 5 1 i1 k1, Note 5 0 i2 k2])]"
  by (simp add: File_iter_def)

section \<open>Header normalisation\<close>

text \<open>
  Claim C3. Saving should recompute \<open>song_length\<close> as the tick of the last note, and
  as 0 for a document without notes. \<^verbatim>\<open>update_header\<close> assigns \<open>song_length\<close> only
  when there are notes: a document without notes keeps the value its header held, and
  \<^verbatim>\<open>save\<close> writes it (the bytes \<open>7, 0\<close> at offset 4 of the stream, for a new file
  whose header holds the stale length 7).
\<close>

theorem update_header_keeps_stale_song_length:
  "song_length (header (update_header (f\<lparr>file_notes := []\<rparr>))) = song_length (header f)
   \<and> save cents_exact ((new_file 10)\<lparr>header := (Header_init 10)\<lparr>song_length := 7\<rparr>\<rparr>) =
     (Inr (),
      [0, 0, 3, 16, 7, 0, 1, 0, 0, 0, 0, 0, 0, 0, 0, 0, 0, 0, 0, 0, 0, 0, 0, 0,
       232, 3, 0, 10, 4, 0, 0, 0, 0, 0, 0, 0, 0, 0, 0, 0, 0, 0, 0, 0, 0, 0, 0,
       0, 0, 0, 0, 0, 0, 0, 0, 0, 0, 0, 0, 100, 100, 0])"
  by (simp add: update_header_def save_def new_file_def Header_init_def encode_file_def
      write_header_def write_notes_def write_layers_def write_instruments_def File_iter_def
      io_defs encode_numeric_eval encode_string_eval pack_def le_bytes_numeral cents_exact_def)

section \<open>Strings\<close>

text \<open>
  Claim C8. The length prefix of a string should be the number of bytes of encoded
  text that follow it, so that \<^verbatim>\<open>read_string\<close> reads the string back.
  \<^verbatim>\<open>encode_string\<close> writes \<^verbatim>\<open>len(value)\<close>, the number of code points: for the
  one-character string U+00E9 the prefix is 1 and two bytes follow, and
  \<^verbatim>\<open>read_string\<close> reads one of them and fails to decode it.
\<close>

theorem encode_string_prefix_counts_code_points:
  "encode_string [0xE9] [] = (Inr (), [1, 0, 0, 0, 0xC3, 0xA9])
   \<and> read_string [1, 0, 0, 0, 0xC3, 0xA9] = (Inl UnicodeDecodeError, [0xA9])"
  by (simp add: encode_string_def encode_numeric_def pack_def io_defs buffer_write_def
      utf8_encode_char_def read_string_def read_numeric_INT buffer_read_def le_bytes_numeral)

section \<open>The jump sequence\<close>

text \<open>
  Claim C4 says that the values \<^verbatim>\<open>jump\<close> yields are always strictly increasing and
  non-negative. The 16-bit jumps are signed and a negative one is accepted like any
  other: on the stream \<open>FD FF 00 00\<close> (the jump \<open>-3\<close>, then the terminator) the
  generator yields \<open>-4\<close>.
\<close>

theorem jump_negative_counterexample: "jump [0xFD, 0xFF, 0, 0] = (Inr [- 4], [])"
  unfolding jump_def
  by (simp add: jump_from.simps read_numeric_SHORT)

text \<open>
  Claim C4, amended. For every input stream, \<^verbatim>\<open>jump\<close> returns the values \<open>vs\<close> and
  leaves \<open>rest\<close> exactly when the stream consists of nonzero signed 16-bit jumps, the
  terminator 0 and then \<open>rest\<close>, and \<open>vs\<close> are the running sums of these jumps from
  \<open>-1\<close>: every nonzero jump, negative ones included, is added to the accumulator and
  the accumulator is yielded, without any bound on it. On every other stream it
  raises \<^verbatim>\<open>struct.error\<close>. If every jump is positive the values yielded are strictly
  increasing and non-negative.
\<close>

theorem jump_yields_running_sums:
  "(jump buf = (Inr vs, rest) \<longleftrightarrow>
      (\<exists>js. buf = concat (map (le_bytes 2) js) @ le_bytes 2 0 @ rest
           \<and> (\<forall>j\<in>set js. j \<noteq> 0 \<and> - 32768 \<le> j \<and> j \<le> 32767)
           \<and> vs = accumulate (- 1) js))
   \<and> (jump buf = (Inl e, rest) \<longrightarrow> e = StructError)
   \<and> ((\<forall>j\<in>set js'. 0 < j) \<longrightarrow>
         sorted_wrt (<) (accumulate (- 1) js') \<and> (\<forall>x\<in>set (accumulate (- 1) js'). 0 \<le> x))"
proof (intro conjI iffI impI)
  assume "jump buf = (Inr vs, rest)"
  then show "\<exists>js. buf = concat (map (le_bytes 2) js) @ le_bytes 2 0 @ rest
           \<and> (\<forall>j\<in>set js. j \<noteq> 0 \<and> - 32768 \<le> j \<and> j \<le> 32767)
           \<and> vs = accumulate (- 1) js"
    unfolding jump_def by (rule jump_from_Inr)
next
  assume "\<exists>js. buf = concat (map (le_bytes 2) js) @ le_bytes 2 0 @ rest
           \<and> (\<forall>j\<in>set js. j \<noteq> 0 \<and> - 32768 \<le> j \<and> j \<le> 32767)
           \<and> vs = accumulate (- 1) js"
  then show "jump buf = (Inr vs, rest)"
    unfolding jump_def using jump_from_bytes by blast
next
  assume "jump buf = (Inl e, rest)"
  then show "e = StructError" unfolding jump_def by (rule jump_from_Inl)
next
  assume "\<forall>j\<in>set js'. 0 < j"
  from accumulate_increasing[OF this, of "- 1"]
  show "sorted_wrt (<) (accumulate (- 1) js')" by simp
next
  assume "\<forall>j\<in>set js'. 0 < j"
  from accumulate_increasing[OF this, of "- 1"]
  show "\<forall>x\<in>set (accumulate (- 1) js'). 0 \<le> x" by fastforce
qed

theorem jump_yields_running_sums_witness:
  "jump [1, 0, 5, 0, 0, 0] = (Inr [0, 5], [])
   \<and> jump [0xFF, 0x7F, 0xFF, 0x7F, 0, 0, 9] = (Inr [32766, 65533], [9])
   \<and> sorted_wrt (<) (accumulate (- 1) [32767, 32767])
   \<and> jump [1, 0, 5] \<noteq> (Inl ValueError, [])"
proof -
  have a: "\<exists>js. [1, 0, 5, 0, 0, 0] = concat (map (le_bytes 2) js) @ le_bytes 2 0 @ []
           \<and> (\<forall>j\<in>set js. j \<noteq> 0 \<and> - 32768 \<le> j \<and> j \<le> 32767)
           \<and> [0, 5] = accumulate (- 1) js"
    by (rule exI[of _ "[1, 5]"]) (simp add: le_bytes_numeral)
  have b: "\<exists>js. [0xFF, 0x7F, 0xFF, 0x7F, 0, 0, 9] = concat (map (le_bytes 2) js) @ le_bytes 2 0 @ [9]
           \<and> (\<forall>j\<in>set js. j \<noteq> 0 \<and> - 32768 \<le> j \<and> j \<le> 32767)
           \<and> [32766, 65533] = accumulate (- 1) js"
    by (rule exI[of _ "[32767, 32767]"]) (simp add: le_bytes_numeral)
  from a b
    jump_yields_running_sums[of "[1, 0, 5, 0, 0, 0]" "[0, 5]" "[]" ValueError "[32767, 32767]"]
    jump_yields_running_sums[of "[0xFF, 0x7F, 0xFF, 0x7F, 0, 0, 9]" "[32766, 65533]" "[9]"
      ValueError "[32767, 32767]"]
    jump_yields_running_sums[of "[1, 0, 5]" "[]" "[]" ValueError "[]"]
  show ?thesis by auto
qed

section \<open>The range of instrument and key\<close>

text \<open>
  Claim C9 says that the instrument and the key of every decoded note lie in 0..255.
  Both are read with \<^verbatim>\<open>BYTE\<close>, a signed byte: the bytes \<open>FF\<close> and \<open>80\<close> decode to
  the instrument \<open>-1\<close> and the key \<open>-128\<close>.
\<close>

theorem parse_notes_negative_byte_counterexample:
  "parse_notes [1, 0, 1, 0, 0xFF, 0x80, 0, 0, 0, 0] = (Inr [Note 0 0 (- 1) (- 128)], [])"
  by (rule parse_notes_example)

text \<open>
  Claim C9, amended. The instrument and the key of every note produced by decoding
  the note grid lie in the range of a signed byte, -128..127.
\<close>

theorem parse_notes_signed_bytes:
  assumes "parse_notes buf = (Inr ns, rest)"
  shows "\<forall>n\<in>set ns. - 128 \<le> instrument n \<and> instrument n \<le> 127
                   \<and> - 128 \<le> key n \<and> key n \<le> 127"
  using assms unfolding parse_notes_def by (rule parse_notes_outer_bytes)

theorem parse_notes_signed_bytes_witness:
  "parse_notes [1, 0, 1, 0, 0xFF, 0x80, 0, 0, 0, 0] = (Inr [Note 0 0 (- 1) (- 128)], [])
   \<and> - 128 \<le> instrument (Note 0 0 (- 1) (- 128)) \<and> instrument (Note 0 0 (- 1) (- 128)) \<le> 127
   \<and> - 128 \<le> key (Note 0 0 (- 1) (- 128)) \<and> key (Note 0 0 (- 1) (- 128)) \<le> 127"
  using parse_notes_signed_bytes[OF parse_notes_example] parse_notes_example by simp

section \<open>The jumps of a chord set\<close>

text \<open>
  Claim C5 says that for notes at the ticks 0, 5, 5 and 100 the tick-level jumps
  written are 1, 6, 96. \<^verbatim>\<open>write_notes\<close> writes \<^verbatim>\<open>tick - current_tick\<close> with
  \<open>current_tick\<close> starting at \<open>-1\<close>: the jumps are 1, 5, 95.
\<close>

theorem write_notes_deltas_counterexample:
  "write_notes \<lparr>header = Header_init (10::rat),
               file_notes = [Note 0 0 1 2, Note 5 2 3 4, Note 5 7 5 6, Note 100 1 7 8],
               layers = [Layer 0 [] 100 100], instruments = []\<rparr> []
   = (Inr (), [1, 0,   1, 0, 1, 2,   0, 0,
               5, 0,   3, 0, 3, 4,   5, 0, 5, 6,   0, 0,
               95, 0,  2, 0, 7, 8,   0, 0,
               0, 0])"
  by (simp add: write_notes_def File_iter_def io_bind_def io_return_def encode_numeric_eval
      pack_def le_bytes_numeral)

text \<open>
  Claim C5, amended. For a document whose notes are, in this order, one at tick 0,
  two at tick 5 on the layers 2 and 7 and one at tick 100, \<^verbatim>\<open>write_notes\<close> writes
  the tick-level jumps 1, 5, 95, each followed by its chord and the chord's
  terminator, none of them zero, and \<^verbatim>\<open>parse_notes\<close> reads the four notes back.
\<close>

theorem write_notes_ticks_0_5_5_100:
  assumes "file_notes f = [n0, n1, n2, n3]"
    and "tick n0 = 0" and "tick n1 = 5" and "layer n1 = 2"
    and "tick n2 = 5" and "layer n2 = 7" and "tick n3 = 100"
    and "\<forall>n\<in>set (file_notes f). note_ok n"
  shows "\<exists>bs. bs = le_bytes 2 1 @ chord_bytes (- 1) [n0] @ le_bytes 2 0
                 @ le_bytes 2 5 @ chord_bytes (- 1) [n1, n2] @ le_bytes 2 0
                 @ le_bytes 2 95 @ chord_bytes (- 1) [n3] @ le_bytes 2 0
                 @ le_bytes 2 0
             \<and> write_notes f [] = (Inr (), bs)
             \<and> parse_notes bs = (Inr [n0, n1, n2, n3], [])"
proof -
  have srt: "sorted_wrt note_before (file_notes f)"
    using assms by (simp add: note_before_def)
  have it: "File_iter f = [(0, [n0]), (5, [n1, n2]), (100, [n3])]"
    using assms by (simp add: File_iter_def)
  from write_notes_bytes[OF srt assms(8), of "[]"] parse_notes_bytes[OF srt assms(8), of "[]"]
  show ?thesis unfolding it using assms(1) by simp
qed

theorem write_notes_ticks_0_5_5_100_witness:
  "write_notes \<lparr>header = Header_init (10::rat),
               file_notes = [Note 0 0 1 2, Note 5 2 3 4, Note 5 7 5 6, Note 100 1 7 8],
               layers = [Layer 0 [] 100 100], instruments = []\<rparr> []
     = (Inr (), [1, 0, 1, 0, 1, 2, 0, 0, 5, 0, 3, 0, 3, 4, 5, 0, 5, 6, 0, 0,
                 95, 0, 2, 0, 7, 8, 0, 0, 0, 0])
   \<and> parse_notes [1, 0, 1, 0, 1, 2, 0, 0, 5, 0, 3, 0, 3, 4, 5, 0, 5, 6, 0, 0,
                  95, 0, 2, 0, 7, 8, 0, 0, 0, 0]
     = (Inr [Note 0 0 1 2, Note 5 2 3 4, Note 5 7 5 6, Note 100 1 7 8], [])"
  using write_notes_ticks_0_5_5_100[of
      "\<lparr>header = Header_init (10::rat),
        file_notes = [Note 0 0 1 2, Note 5 2 3 4, Note 5 7 5 6, Note 100 1 7 8],
        layers = [Layer 0 [] 100 100], instruments = []\<rparr>"
      "Note 0 0 1 2" "Note 5 2 3 4" "Note 5 7 5 6" "Note 100 1 7 8"]
  by (simp add: note_ok_def le_bytes_numeral)

section \<open>The instrument section\<close>

text \<open>
  Claim C10 says that encoding the instrument section succeeds for every document with
  at most 127 instruments. The pitch of an instrument is written as a signed byte too:
  for a document with the single instrument of pitch 200 (a pitch within the 0 to 255
  of the data model) \<^verbatim>\<open>write_instruments\<close> writes the count and the two empty strings
  and then raises \<^verbatim>\<open>struct.error\<close>.
\<close>

theorem write_instruments_pitch_counterexample:
  "write_instruments \<lparr>header = Header_init (10::rat), file_notes = [],
                      layers = [Layer 0 [] 100 100],
                      instruments = [Instrument 0 [] [] 200 False]\<rparr> []
   = (Inl StructError, [1, 0, 0, 0, 0, 0, 0, 0, 0])"
  by (simp add: write_instruments_def io_bind_def encode_numeric_eval encode_string_eval pack_def
      le_bytes_numeral)

text \<open>
  Claim C10, amended. For a document with 128 or more instruments
  \<^verbatim>\<open>write_instruments\<close> raises \<^verbatim>\<open>struct.error\<close> before anything is written, because the
  count is written as one signed byte. For a document with at most 127 instruments it
  succeeds exactly when every instrument has a pitch from -128 to 127 and a name and a
  file that are encodable strings of fewer than \<open>2^31\<close> code points.
\<close>

theorem write_instruments_count_and_fields:
  "(128 \<le> length (instruments f) \<longrightarrow> write_instruments f out = (Inl StructError, out))
   \<and> (length (instruments f) \<le> 127 \<longrightarrow>
        (fst (write_instruments f out) = Inr () \<longleftrightarrow> (\<forall>i\<in>set (instruments f). instrument_ok i)))"
proof (intro conjI impI)
  assume "128 \<le> length (instruments f)"
  then show "write_instruments f out = (Inl StructError, out)"
    by (simp add: write_instruments_def io_bind_def encode_numeric_eval pack_def)
next
  assume "length (instruments f) \<le> 127"
  then have "encode_numeric BYTE (int (length (instruments f))) out
             = (Inr (), out @ le_bytes 1 (int (length (instruments f))))"
    by (simp add: encode_numeric_eval pack_def)
  then show "fst (write_instruments f out) = Inr () \<longleftrightarrow> (\<forall>i\<in>set (instruments f). instrument_ok i)"
    by (simp add: write_instruments_def io_bind_def write_instruments_loop_fst)
qed

theorem write_instruments_count_and_fields_witness:
  "fst (write_instruments \<lparr>header = Header_init (10::rat), file_notes = [],
                      layers = [Layer 0 [] 100 100],
                      instruments = [Instrument 0 [104, 105] [] 45 True]\<rparr> []) = Inr ()
   \<and> write_instruments \<lparr>header = Header_init (10::rat), file_notes = [],
                      layers = [Layer 0 [] 100 100],
                      instruments = replicate 128 (Instrument 0 [] [] 45 True)\<rparr> []
     = (Inl StructError, [])"
  using write_instruments_count_and_fields[of
      "\<lparr>header = Header_init (10::rat), file_notes = [], layers = [Layer 0 [] 100 100],
        instruments = [Instrument 0 [104, 105] [] 45 True]\<rparr>" "[]"]
    write_instruments_count_and_fields[of
      "\<lparr>header = Header_init (10::rat), file_notes = [], layers = [Layer 0 [] 100 100],
        instruments = replicate 128 (Instrument 0 [] [] 45 True)\<rparr>" "[]"]
  by (simp add: instrument_ok_def string_ok_def encodable_def)

section \<open>The format marker\<close>

text \<open>
  Claim C6. For every input stream of at least two bytes, with \<open>marker\<close> the signed
  16-bit little-endian value of the first two: if the marker is nonzero,
  \<^verbatim>\<open>read_file\<close> raises \<^verbatim>\<open>DeprecationWarning\<close> (the deprecated-format error), so it
  returns no document, and it has read the two bytes of the marker and nothing more; if
  the marker is 0 it never raises \<^verbatim>\<open>DeprecationWarning\<close>, and decoding goes on with the
  rest of the stream: where the marker is followed by the sections of the default
  document, \<^verbatim>\<open>read_file\<close> returns that document and leaves what follows them.
\<close>

theorem read_file_legacy_marker:
  assumes "2 \<le> length buf" and "unpack SHORT (take 2 buf) = Inr marker"
  shows "(marker \<noteq> 0 \<longrightarrow> read_file centi buf = (Inl DeprecationWarning, drop 2 buf))
       \<and> (marker = 0 \<longrightarrow> fst (read_file centi buf) \<noteq> Inl DeprecationWarning)
       \<and> (marker = 0 \<longrightarrow>
            drop 2 buf =
              [3, 16, 0, 0, 1, 0, 0, 0, 0, 0, 0, 0, 0, 0, 0, 0, 0, 0, 0, 0, 0, 0,
               232, 3, 0, 10, 4, 0, 0, 0, 0, 0, 0, 0, 0, 0, 0, 0, 0, 0, 0, 0, 0, 0, 0,
               0, 0, 0, 0, 0, 0, 0, 0, 0, 0, 0, 0, 100, 100, 0] @ R \<longrightarrow>
            read_file centi buf
              = (Inr \<lparr>header = (Header_init (centi 1000))\<lparr>song_layers := 1\<rparr>,
                      file_notes = [], layers = [Layer 0 [] 100 100], instruments = []\<rparr>, R))"
proof -
  from assms have s1: "read_numeric SHORT buf = (Inr marker, drop 2 buf)"
    by (simp add: read_numeric_def io_defs buffer_read_def)
  have a: "read_file centi buf = (Inl DeprecationWarning, drop 2 buf)" if "marker \<noteq> 0"
    unfolding read_file_def
    by (simp add: io_bind_def parse_header_marker(1)[OF s1 that])
  have b: "fst (read_file centi buf) \<noteq> Inl DeprecationWarning" if m: "marker = 0"
  proof
    assume "fst (read_file centi buf) = Inl DeprecationWarning"
    then obtain b where "read_file centi buf = (Inl DeprecationWarning, b)"
      by (cases "read_file centi buf") simp
    then show False
      unfolding read_file_def
    proof (cases rule: io_bind_Inl_E)
      case first
      from parse_header_marker(2)[OF s1 m first] show False by simp
    next
      case (later h b')
      from raises_onlyD[OF raises_only_read_body later(2)] show False by simp
    qed
  qed
  have c: "read_file centi buf
              = (Inr \<lparr>header = (Header_init (centi 1000))\<lparr>song_layers := 1\<rparr>,
                      file_notes = [], layers = [Layer 0 [] 100 100], instruments = []\<rparr>, R)"
    if m: "marker = 0" and d: "drop 2 buf =
              [3, 16, 0, 0, 1, 0, 0, 0, 0, 0, 0, 0, 0, 0, 0, 0, 0, 0, 0, 0, 0, 0,
               232, 3, 0, 10, 4, 0, 0, 0, 0, 0, 0, 0, 0, 0, 0, 0, 0, 0, 0, 0, 0, 0, 0,
               0, 0, 0, 0, 0, 0, 0, 0, 0, 0, 0, 0, 100, 100, 0] @ R"
  proof -
    from assms(1) obtain b0 b1 where t: "take 2 buf = [b0, b1]"
      by (cases buf; cases "tl buf") (auto simp: numeral_2_eq_2)
    have bd: "0 \<le> uint b0" "0 \<le> uint b1" "uint b0 < 256" "uint b1 < 256"
      using uint_bounded[of b0] uint_bounded[of b1] by simp_all
    from t assms(2) m have "uint b0 + 256 * uint b1 = 0 \<or> uint b0 + 256 * uint b1 = 65536"
      by (auto simp: unpack_def split: if_splits)
    with bd have "uint b0 = 0" "uint b1 = 0" by linarith+
    then have "b0 = 0" "b1 = 0" by (simp_all add: uint_0_iff)
    with t have "buf = [0, 0] @ drop 2 buf" by (metis append_take_drop_id)
    with d have "buf = [0, 0, 3, 16, 0, 0, 1, 0, 0, 0, 0, 0, 0, 0, 0, 0, 0, 0, 0, 0, 0, 0, 0, 0,
       232, 3, 0, 10, 4, 0, 0, 0, 0, 0, 0, 0, 0, 0, 0, 0, 0, 0, 0, 0, 0, 0, 0,
       0, 0, 0, 0, 0, 0, 0, 0, 0, 0, 0, 0, 100, 100, 0] @ R" by simp
    then show ?thesis using read_file_default_bytes[of centi R] by simp
  qed
  from a b c show ?thesis by blast
qed

theorem read_file_legacy_marker_witness:
  "read_file centi_exact [1, 0, 3, 16, 0] = (Inl DeprecationWarning, [3, 16, 0])
   \<and> fst (read_file centi_exact [0, 0, 3, 16, 0]) \<noteq> Inl DeprecationWarning
   \<and> read_file centi_exact
       [0, 0, 3, 16, 0, 0, 1, 0, 0, 0, 0, 0, 0, 0, 0, 0, 0, 0, 0, 0, 0, 0, 0, 0,
        232, 3, 0, 10, 4, 0, 0, 0, 0, 0, 0, 0, 0, 0, 0, 0, 0, 0, 0, 0, 0, 0, 0,
        0, 0, 0, 0, 0, 0, 0, 0, 0, 0, 0, 0, 100, 100, 0]
     = (Inr \<lparr>header = (Header_init 10)\<lparr>song_layers := 1\<rparr>, file_notes = [],
             layers = [Layer 0 [] 100 100], instruments = []\<rparr>, [])"
  using read_file_legacy_marker[of "[1, 0, 3, 16, 0]" 1 centi_exact "[]"]
    read_file_legacy_marker[of "[0, 0, 3, 16, 0]" 0 centi_exact "[]"]
    read_file_legacy_marker[of "[0, 0, 3, 16, 0, 0, 1, 0, 0, 0, 0, 0, 0, 0, 0, 0, 0, 0, 0, 0, 0, 0, 0, 0,
        232, 3, 0, 10, 4, 0, 0, 0, 0, 0, 0, 0, 0, 0, 0, 0, 0, 0, 0, 0, 0, 0, 0,
        0, 0, 0, 0, 0, 0, 0, 0, 0, 0, 0, 0, 100, 100, 0]" 0 centi_exact "[]"]
  by (simp add: unpack_def centi_exact_def)

section \<open>Truncated streams\<close>




end
